theory Spec2Isabelle
  imports Complex_Main
begin

section \<open>The flanger effect of SoX (flanger.c)\<close>

text \<open>
  A shallow embedding of \<^verbatim>\<open>sox_flanger_start\<close> and \<^verbatim>\<open>sox_flanger_flow\<close>.

  \<^item> A C \<^verbatim>\<open>double\<close> (and the \<^verbatim>\<open>float\<close> of the LFO table) is the \<^typ>\<open>real\<close> number it
    denotes, and every operation on doubles rounds its exact result to the nearest double,
    the even one of two that are equally near (\<open>fl\<close>), as IEEE 754 binary64 arithmetic
    does when each operation is rounded by itself (no fused multiplication and addition,
    no wider format for intermediate results).
  \<^item> A \<^verbatim>\<open>sox_size_t\<close> is an unsigned 32-bit integer: a \<^typ>\<open>nat\<close> below \<open>2 ^ 32\<close>, with the
    wrap-around of its arithmetic written out (\<open>size_wrap\<close>).
  \<^item> What C leaves undefined (a division by zero, a conversion of a floating value that
    does not fit the integer type, a read or write outside an array) is a \<open>fault\<close>, the
    left summand of the result.
\<close>

subsection \<open>Machine arithmetic and faults\<close>

datatype fault = Division_By_Zero | Conversion_Out_Of_Range | Index_Out_Of_Bounds

datatype status = SOX_SUCCESS | SOX_EOF

definition and_then :: "fault + 'a \<Rightarrow> ('a \<Rightarrow> fault + 'b) \<Rightarrow> fault + 'b" where
  "and_then m k = (case m of Inl e \<Rightarrow> Inl e | Inr x \<Rightarrow> k x)"

definition size_wrap :: "nat \<Rightarrow> nat" where
  "size_wrap n = n mod 2 ^ 32"

text \<open>
  Conversion of a floating value to \<^verbatim>\<open>sox_size_t\<close>: the fraction is discarded (towards
  zero), and the behaviour is undefined when the result does not fit.
\<close>

definition to_size :: "real \<Rightarrow> fault + nat" where
  "to_size x = (if - 1 < x \<and> x < 2 ^ 32 then Inr (nat \<lfloor>x\<rfloor>) else Inl Conversion_Out_Of_Range)"

text \<open>The operator \<^verbatim>\<open>%\<close> on \<^verbatim>\<open>sox_size_t\<close>.\<close>

definition size_mod :: "nat \<Rightarrow> nat \<Rightarrow> fault + nat" where
  "size_mod a b = (if b = 0 then Inl Division_By_Zero else Inr (a mod b))"

definition index :: "'a list \<Rightarrow> nat \<Rightarrow> fault + 'a" where
  "index xs i = (if i < length xs then Inr (xs ! i) else Inl Index_Out_Of_Bounds)"

text \<open>The integral part of a floating value, as \<^verbatim>\<open>modf\<close> and a conversion to an integer take it.\<close>

definition trunc :: "real \<Rightarrow> int" where
  "trunc x = (if 0 \<le> x then \<lfloor>x\<rfloor> else \<lceil>x\<rceil>)"

subsection \<open>Floating-point arithmetic\<close>

text \<open>
  The exponent of a positive real: \<open>2 powi expo x \<le> x < 2 powi (expo x + 1)\<close>.
\<close>

function expo :: "real \<Rightarrow> int" where
  "expo x =
     (if x \<le> 0 then 0
      else if 2 \<le> x then expo (x / 2) + 1
      else if x < 1 then expo (x * 2) - 1
      else 0)"
  by pat_completeness auto
termination
proof (relation "measure (\<lambda>x. if 1 \<le> x then nat \<lfloor>log 2 x\<rfloor> else nat \<lceil>- log 2 x\<rceil>)")
  show "wf (measure (\<lambda>x. if 1 \<le> x then nat \<lfloor>log 2 x\<rfloor> else nat \<lceil>- log 2 x\<rceil>))"
    by simp
next
  fix x :: real
  assume "\<not> x \<le> 0" and x: "2 \<le> x"
  have "log 2 (x / 2) = log 2 x - 1"
    using x by (simp add: log_divide)
  moreover have "1 \<le> log 2 x"
    using x by (simp add: le_log_iff)
  then have "1 \<le> \<lfloor>log 2 x\<rfloor>"
    by (simp add: le_floor_iff)
  ultimately show "(x / 2, x) \<in> measure (\<lambda>x. if 1 \<le> x then nat \<lfloor>log 2 x\<rfloor> else nat \<lceil>- log 2 x\<rceil>)"
    using x by simp
next
  fix x :: real
  assume x: "\<not> x \<le> 0" "\<not> 2 \<le> x" "x < 1"
  have l: "log 2 (x * 2) = log 2 x + 1"
    using x by (simp add: log_mult)
  have neg: "log 2 x < 0"
    using x by simp
  then have c: "1 \<le> \<lceil>- log 2 x\<rceil>"
    by (simp add: le_ceiling_iff)
  show "(x * 2, x) \<in> measure (\<lambda>x. if 1 \<le> x then nat \<lfloor>log 2 x\<rfloor> else nat \<lceil>- log 2 x\<rceil>)"
  proof (cases "1 \<le> x * 2")
    case True
    have "log 2 (x * 2) < 1"
      using x by simp
    moreover have "0 \<le> log 2 (x * 2)"
      using True x by simp
    ultimately have "\<lfloor>log 2 (x * 2)\<rfloor> = 0"
      by (simp add: floor_eq_iff)
    then show ?thesis
      using True x c by simp
  next
    case False
    have "- log 2 (x * 2) = - log 2 x - 1"
      unfolding l by simp
    then have "\<lceil>- log 2 (x * 2)\<rceil> = \<lceil>- log 2 x\<rceil> - 1"
      by (simp only: ceiling_diff_one)
    then show ?thesis
      using False x c by simp
  qed
qed

declare expo.simps [simp del]

text \<open>The nearest integer, the even one of two that are equally near.\<close>

definition rne :: "real \<Rightarrow> int" where
  "rne y =
     (let f = \<lfloor>y\<rfloor>; r = y - of_int f
      in if r < 1 / 2 then f else if 1 / 2 < r then f + 1 else if even f then f else f + 1)"

text \<open>
  The nearest double: a multiple of \<open>2 powi e\<close> with a significand of 53 bits, where \<open>e\<close>
  stops at the exponent of the subnormal numbers. The exponent has no upper limit: a
  result of \<open>2 ^ 1024\<close> or more, which the machine replaces by an infinity, is outside the
  model.
\<close>

definition fl :: "real \<Rightarrow> real" where
  "fl x =
     (let e = max (expo \<bar>x\<bar>) (- 1022) - 52
      in sgn x * of_int (rne (\<bar>x\<bar> / 2 powi e)) * 2 powi e)"

text \<open>The operations of C on doubles; a constant such as \<^verbatim>\<open>0.5\<close> or \<^verbatim>\<open>1000\<close> is a double itself.\<close>

definition fadd :: "real \<Rightarrow> real \<Rightarrow> real" where
  "fadd a b = fl (a + b)"

definition fsub :: "real \<Rightarrow> real \<Rightarrow> real" where
  "fsub a b = fl (a - b)"

definition fmul :: "real \<Rightarrow> real \<Rightarrow> real" where
  "fmul a b = fl (a * b)"

definition fdiv :: "real \<Rightarrow> real \<Rightarrow> real" where
  "fdiv a b = fl (a / b)"

subsection \<open>The effect's private data\<close>

datatype interp_t = INTERP_LINEAR | INTERP_QUADRATIC

datatype sox_wave_t = SOX_WAVE_SINE | SOX_WAVE_TRIANGLE

definition MAX_CHANNELS :: int where
  "MAX_CHANNELS = 4"

text \<open>
  \<^verbatim>\<open>struct flanger\<close>. The \<open>delay_bufs\<close> are the allocated buffers, one list for each channel;
  \<open>delay_last\<close> is the array of \<^verbatim>\<open>MAX_CHANNELS\<close> values; \<open>lfo\<close> is the allocated table.
\<close>

record flanger =
  delay_min :: real
  delay_depth :: real
  feedback_gain :: real
  delay_gain :: real
  speed :: real
  wave_shape :: sox_wave_t
  channel_phase :: real
  interpolation :: interp_t
  delay_bufs :: "real list list"
  delay_buf_length :: nat
  delay_buf_pos :: nat
  delay_last :: "real list"
  lfo :: "real list"
  lfo_length :: nat
  lfo_pos :: nat
  in_gain :: real

text \<open>
  The numeric parameters as \<^verbatim>\<open>sox_flanger_getopts\<close> stores them: doubles (values that \<open>fl\<close>
  leaves as they are), in the ranges it accepts (the two textual parameters are values
  of their enumerations). The bound \<^verbatim>\<open>0.1\<close> of the speed is the double nearest to one
  tenth.
\<close>

definition params_in_range :: "flanger \<Rightarrow> bool" where
  "params_in_range p \<longleftrightarrow>
     fl (delay_min p) = delay_min p \<and> 0 \<le> delay_min p \<and> delay_min p \<le> 10 \<and>
     fl (delay_depth p) = delay_depth p \<and> 0 \<le> delay_depth p \<and> delay_depth p \<le> 10 \<and>
     fl (feedback_gain p) = feedback_gain p \<and> - 95 \<le> feedback_gain p \<and> feedback_gain p \<le> 95 \<and>
     fl (delay_gain p) = delay_gain p \<and> 0 \<le> delay_gain p \<and> delay_gain p \<le> 100 \<and>
     fl (speed p) = speed p \<and> fl (1 / 10) \<le> speed p \<and> speed p \<le> 10 \<and>
     fl (channel_phase p) = channel_phase p \<and> 0 \<le> channel_phase p \<and> channel_phase p \<le> 100"

subsection \<open>Start\<close>

text \<open>
  \<^verbatim>\<open>sox_generate_wave_table\<close> is not part of flanger.c: it is the parameter \<open>gen\<close>, called
  with the shape, the table length, the minimum, the maximum and the phase, and
  returning the table. The sample rate \<^verbatim>\<open>effp->ininfo.rate\<close> is declared elsewhere too; as
  it only occurs as an operand of floating arithmetic, it is the \<^typ>\<open>real\<close> value of that
  operand here.

  The three conversions to \<^verbatim>\<open>sox_size_t\<close> are the places where start can leave defined
  behaviour; a \<open>speed\<close> of zero would make the quotient infinite or not a number, which
  does not fit either. \<^verbatim>\<open>xcalloc\<close> returns zeroed storage (or ends the process, which is
  not modelled); the buffers of the channels from \<open>0\<close> to \<open>channels - 1\<close> are the only ones
  flow uses, and the only ones the model keeps.
\<close>

text \<open>The constant \<^verbatim>\<open>M_PI_2\<close> of math.h, with the digits of its definition there.\<close>

definition M_PI_2 :: real where
  "M_PI_2 = fl (157079632679489661923 / 10 ^ 20)"

type_synonym wave_gen = "sox_wave_t \<Rightarrow> nat \<Rightarrow> real \<Rightarrow> real \<Rightarrow> real \<Rightarrow> real list"

definition sox_flanger_start ::
  "wave_gen \<Rightarrow> flanger \<Rightarrow> int \<Rightarrow> real \<Rightarrow> fault + (status \<times> flanger)" where
  "sox_flanger_start gen f channels rate =
     (if channels > MAX_CHANNELS then Inr (SOX_EOF, f)
      else
        let fg = fdiv (feedback_gain f) 100;
            dg0 = fdiv (delay_gain f) 100;
            cp = fdiv (channel_phase f) 100;
            ig = fdiv 1 (fadd 1 dg0);
            dg1 = fdiv dg0 (fadd 1 dg0);
            dg2 = fmul dg1 (fsub 1 \<bar>fg\<bar>)
        in
        and_then (to_size (fadd (fmul (fdiv (fadd (delay_min f) (delay_depth f)) 1000) rate)
                    (1 / 2))) (\<lambda>n0.
          let n1 = size_wrap (n0 + 1);
              n2 = size_wrap (n1 + 1)
          in
          and_then (if speed f = 0 then Inl Conversion_Out_Of_Range
                    else to_size (fdiv rate (speed f))) (\<lambda>l.
          and_then (to_size (fadd (fmul (fdiv (delay_min f) 1000) rate) (1 / 2))) (\<lambda>lo.
            Inr (SOX_SUCCESS,
              f\<lparr>feedback_gain := fg,
                delay_gain := dg2,
                channel_phase := cp,
                in_gain := ig,
                delay_buf_length := n2,
                delay_bufs := replicate (nat channels) (replicate n2 0),
                lfo_length := l,
                lfo := gen (wave_shape f) l (real lo)
                         (real (size_wrap (n2 + (2 ^ 32 - 2)))) (fmul 3 M_PI_2)\<rparr>)))))"

subsection \<open>Flow\<close>

text \<open>
  Modelled from the spec: the macro \<^verbatim>\<open>SOX_ROUND_CLIP_COUNT\<close> and the sample limits are
  declared in sox.h, not in flanger.c. The spec has the step as "clip-and-round to the
  output sample representation, incrementing a clip counter on saturation": the value is
  rounded to the nearest integer (half away from zero, by adding or subtracting one half,
  in doubles, before the conversion to the 32-bit sample discards the fraction) and a
  value beyond the sample range becomes the nearest limit and counts as one clip.
\<close>

definition SOX_SAMPLE_MAX :: int where
  "SOX_SAMPLE_MAX = 2 ^ 31 - 1"

definition SOX_SAMPLE_MIN :: int where
  "SOX_SAMPLE_MIN = - (2 ^ 31)"

definition SOX_ROUND_CLIP_COUNT :: "real \<Rightarrow> nat \<Rightarrow> int \<times> nat" where
  "SOX_ROUND_CLIP_COUNT d clips =
     (if d < 0 then
        (if d \<le> real_of_int SOX_SAMPLE_MIN - 1 / 2 then (SOX_SAMPLE_MIN, size_wrap (clips + 1))
         else (trunc (fsub d (1 / 2)), clips))
      else
        (if real_of_int SOX_SAMPLE_MAX + 1 / 2 \<le> d then (SOX_SAMPLE_MAX, size_wrap (clips + 1))
         else (trunc (fadd d (1 / 2)), clips)))"

text \<open>
  The state of one call: the private data, the clip counter \<^verbatim>\<open>effp->clips\<close>, the input
  samples that \<^verbatim>\<open>ibuf\<close> still points to and the output samples written through \<^verbatim>\<open>obuf\<close>.
\<close>

record flow_state =
  priv :: flanger
  clips :: nat
  ibuf :: "int list"
  obuf :: "int list"

text \<open>Line 222: the offset of channel \<open>c\<close> into the LFO table.\<close>

definition lfo_offset :: "flanger \<Rightarrow> nat \<Rightarrow> fault + nat" where
  "lfo_offset f c =
     to_size (fadd (fmul (real (size_wrap (c * lfo_length f))) (channel_phase f)) (1 / 2))"

text \<open>Line 223: the index at which channel \<open>c\<close> reads the LFO table.\<close>

definition lfo_index :: "flanger \<Rightarrow> nat \<Rightarrow> fault + nat" where
  "lfo_index f c =
     and_then (lfo_offset f c) (\<lambda>channel_phase.
       size_mod (size_wrap (lfo_pos f + channel_phase)) (lfo_length f))"

text \<open>A read of the delay buffer \<open>int_delay\<close> places after the current position.\<close>

definition tap :: "flanger \<Rightarrow> real list \<Rightarrow> nat \<Rightarrow> fault + real" where
  "tap f buf int_delay =
     and_then (size_mod (size_wrap (delay_buf_pos f + int_delay)) (delay_buf_length f)) (index buf)"

text \<open>Lines 230 to 247: the delayed sample, between the taps.\<close>

definition interpolate :: "flanger \<Rightarrow> real list \<Rightarrow> nat \<Rightarrow> real \<Rightarrow> fault + real" where
  "interpolate f buf int_delay frac_delay =
     and_then (tap f buf int_delay) (\<lambda>delayed_0.
     and_then (tap f buf (size_wrap (int_delay + 1))) (\<lambda>delayed_1.
       if interpolation f = INTERP_LINEAR
       then Inr (fadd delayed_0 (fmul (fsub delayed_1 delayed_0) frac_delay))
       else
         and_then (tap f buf (size_wrap (size_wrap (int_delay + 1) + 1))) (\<lambda>delayed_2.
           let d2 = fsub delayed_2 delayed_0;
               d1 = fsub delayed_1 delayed_0;
               a = fsub (fmul d2 (1 / 2)) d1;
               b = fsub (fmul d1 2) (fmul d2 (1 / 2))
           in Inr (fadd delayed_0 (fmul (fadd (fmul a frac_delay) b) frac_delay)))))"

text \<open>
  Lines 219 to 251: the body of the loop over the channels. The integral part of the
  delay is converted to \<^verbatim>\<open>size_t\<close> and stored in a \<^verbatim>\<open>sox_size_t\<close>; the model takes the
  conversion at the 32 bits of the latter. \<^verbatim>\<open>modf\<close> splits a double without rounding. A
  buffer is written, and the sample read, only inside their storage.
\<close>

definition flow_channel :: "nat \<Rightarrow> flow_state \<Rightarrow> fault + flow_state" where
  "flow_channel c st =
     (let f = priv st in
      and_then (lfo_index f c) (\<lambda>i.
      and_then (index (lfo f) i) (\<lambda>d.
        let delay = real_of_int (trunc d);
            frac_delay = d - delay
        in
        and_then (to_size delay) (\<lambda>int_delay.
          case ibuf st of
            [] \<Rightarrow> Inl Index_Out_Of_Bounds
          | x # rest \<Rightarrow>
              let inp = real_of_int x in
              and_then (index (delay_last f) c) (\<lambda>last.
              and_then (index (delay_bufs f) c) (\<lambda>buf.
                if length buf \<le> delay_buf_pos f then Inl Index_Out_Of_Bounds
                else
                  let buf' = buf[delay_buf_pos f := fadd inp (fmul last (feedback_gain f))] in
                  and_then (interpolate f buf' int_delay frac_delay) (\<lambda>delayed.
                    let out = fadd (fmul inp (in_gain f)) (fmul delayed (delay_gain f));
                        r = SOX_ROUND_CLIP_COUNT out (clips st)
                    in
                    Inr (st\<lparr>priv := f\<lparr>delay_bufs := (delay_bufs f)[c := buf'],
                                       delay_last := (delay_last f)[c := delayed]\<rparr>,
                            clips := snd r,
                            ibuf := rest,
                            obuf := obuf st @ [fst r]\<rparr>))))))))"

fun flow_channels :: "nat list \<Rightarrow> flow_state \<Rightarrow> fault + flow_state" where
  "flow_channels [] st = Inr st"
| "flow_channels (c # cs) st = and_then (flow_channel c st) (flow_channels cs)"

text \<open>Lines 216 to 253: one frame. The channels are \<open>0\<close> up to \<open>channels - 1\<close>.\<close>

definition flow_frame :: "int \<Rightarrow> flow_state \<Rightarrow> fault + flow_state" where
  "flow_frame channels st =
     (let f = priv st in
      and_then (size_mod (size_wrap (size_wrap (delay_buf_pos f + delay_buf_length f) + (2 ^ 32 - 1)))
                  (delay_buf_length f)) (\<lambda>pos.
      and_then (flow_channels [0..<nat channels] (st\<lparr>priv := f\<lparr>delay_buf_pos := pos\<rparr>\<rparr>)) (\<lambda>st'.
      and_then (size_mod (size_wrap (lfo_pos (priv st') + 1)) (lfo_length (priv st'))) (\<lambda>lp.
        Inr (st'\<lparr>priv := (priv st')\<lparr>lfo_pos := lp\<rparr>\<rparr>)))))"

fun flow_loop :: "nat \<Rightarrow> int \<Rightarrow> flow_state \<Rightarrow> fault + flow_state" where
  "flow_loop 0 channels st = Inr st"
| "flow_loop (Suc len) channels st = and_then (flow_frame channels st) (flow_loop len channels)"

text \<open>
  \<^verbatim>\<open>sox_flanger_flow\<close>. The input block is the list \<open>ibuf0\<close>, whose length is \<^verbatim>\<open>*isamp\<close>;
  \<open>osamp\<close> is the capacity of the output block. In the quotient the \<^verbatim>\<open>int\<close> \<open>channels\<close> is
  converted to unsigned. The result has the status, the private data, the clip counter,
  the samples written, and the two counts stored through \<^verbatim>\<open>isamp\<close> and \<^verbatim>\<open>osamp\<close>.
\<close>

definition sox_flanger_flow ::
  "flanger \<Rightarrow> int \<Rightarrow> nat \<Rightarrow> int list \<Rightarrow> nat \<Rightarrow>
     fault + (status \<times> flanger \<times> nat \<times> int list \<times> nat \<times> nat)" where
  "sox_flanger_flow f channels clips0 ibuf0 osamp =
     (if channels = 0 then Inl Division_By_Zero
      else
        let isamp = length ibuf0;
            ch = nat (channels mod 2 ^ 32);
            len = (if isamp > osamp then osamp else isamp) div ch;
            n = size_wrap (len * ch)
        in
        and_then (flow_loop len channels \<lparr>priv = f, clips = clips0, ibuf = ibuf0, obuf = []\<rparr>)
          (\<lambda>st. Inr (SOX_SUCCESS, priv st, clips st, obuf st, n, n)))"

subsection \<open>Concrete inputs\<close>

text \<open>
  The private data as \<^verbatim>\<open>sox_flanger_getopts\<close> leaves it when no argument is given: zeroed
  storage with the four non-zero defaults.
\<close>

definition getopts_defaults :: flanger where
  "getopts_defaults =
     \<lparr>delay_min = 0, delay_depth = 2, feedback_gain = 0, delay_gain = 71, speed = 1 / 2,
      wave_shape = SOX_WAVE_SINE, channel_phase = 25, interpolation = INTERP_LINEAR,
      delay_bufs = [], delay_buf_length = 0, delay_buf_pos = 0, delay_last = [0, 0, 0, 0],
      lfo = [], lfo_length = 0, lfo_pos = 0, in_gain = 0\<rparr>"

text \<open>A wave table generator that stays at the minimum, for evaluating start.\<close>

definition flat_wave :: wave_gen where
  "flat_wave shape n lo hi phase = replicate n lo"

subsection \<open>Invariants and the sequence of calls\<close>

text \<open>
  Two private data with the same configuration: they agree on every field but the
  contents of the delay buffers, the buffer position, the last delayed samples and the LFO
  position.
\<close>

definition same_config :: "flanger \<Rightarrow> flanger \<Rightarrow> bool" where
  "same_config f f' \<longleftrightarrow>
     delay_min f' = delay_min f \<and> delay_depth f' = delay_depth f \<and>
     feedback_gain f' = feedback_gain f \<and> delay_gain f' = delay_gain f \<and>
     in_gain f' = in_gain f \<and> speed f' = speed f \<and> wave_shape f' = wave_shape f \<and>
     channel_phase f' = channel_phase f \<and> interpolation f' = interpolation f \<and>
     delay_buf_length f' = delay_buf_length f \<and> lfo_length f' = lfo_length f \<and>
     lfo f' = lfo f"


text \<open>The input samples are of type \<^verbatim>\<open>sox_ssample_t\<close>, a signed 32-bit integer.\<close>

definition samples_ok :: "int list \<Rightarrow> bool" where
  "samples_ok xs \<longleftrightarrow> (\<forall>x \<in> set xs. SOX_SAMPLE_MIN \<le> x \<and> x \<le> SOX_SAMPLE_MAX)"


text \<open>
  Well-formed private data for a number of channels: a buffer of \<open>delay_buf_length\<close>
  values for each channel, the \<^verbatim>\<open>MAX_CHANNELS\<close> last delayed samples, a non-empty LFO
  table of \<open>lfo_length\<close> values that convert to \<^verbatim>\<open>sox_size_t\<close>, and a channel phase that is a
  fraction of the period.
\<close>

definition flanger_ok :: "flanger \<Rightarrow> int \<Rightarrow> bool" where
  "flanger_ok f channels \<longleftrightarrow>
     channels \<le> MAX_CHANNELS \<and>
     0 < delay_buf_length f \<and>
     length (delay_bufs f) = nat channels \<and>
     (\<forall>b \<in> set (delay_bufs f). length b = delay_buf_length f) \<and>
     length (delay_last f) = nat MAX_CHANNELS \<and>
     0 < lfo_length f \<and>
     length (lfo f) = lfo_length f \<and>
     (\<forall>d \<in> set (lfo f). 0 \<le> d \<and> d < 2 ^ 32) \<and>
     0 \<le> channel_phase f \<and> channel_phase f \<le> 1"


text \<open>
  Modelled from the spec: \<^verbatim>\<open>sox_generate_wave_table\<close> is not part of flanger.c. The spec
  has the generator "fill \<open>length\<close> samples representing sweep amplitude mapped into"
  the interval from the minimum to the maximum it is given.
\<close>

definition wave_gen_ok :: "wave_gen \<Rightarrow> bool" where
  "wave_gen_ok gen \<longleftrightarrow>
     (\<forall>shape n lo hi phase.
        length (gen shape n lo hi phase) = n \<and>
        (lo \<le> hi \<longrightarrow> (\<forall>d \<in> set (gen shape n lo hi phase). lo \<le> d \<and> d \<le> hi)))"


text \<open>
  The private data that the host can pass to flow: the one start has left, and the one
  any call of flow on such data has left.
\<close>

inductive flow_reachable :: "int \<Rightarrow> flanger \<Rightarrow> flanger \<Rightarrow> bool"
  for channels :: int and s0 :: flanger where
  reach_start: "flow_reachable channels s0 s0"
| reach_flow:
    "flow_reachable channels s0 s \<Longrightarrow>
     sox_flanger_flow s channels clips0 ibuf0 osamp = Inr (st, s', clips', ob, i', o') \<Longrightarrow>
     flow_reachable channels s0 s'"


text \<open>
  What the step of channel \<open>c\<close> has left when it has read the LFO table at index \<open>i\<close>: the
  entry \<open>lfo ! i\<close> is the delay, its integral part converts to \<^verbatim>\<open>sox_size_t\<close>, and the last
  delayed sample of the channel is the buffer of the channel interpolated at that delay.
  Here \<open>f\<close> is the private data before the step and \<open>f'\<close> the private data after it.
\<close>

definition channel_reads :: "flanger \<Rightarrow> flanger \<Rightarrow> nat \<Rightarrow> nat \<Rightarrow> bool" where
  "channel_reads f f' c i \<longleftrightarrow>
     i < length (lfo f) \<and>
     (\<exists>k. to_size (real_of_int (trunc (lfo f ! i))) = Inr k \<and>
          interpolate f' (delay_bufs f' ! c) k (lfo f ! i - real_of_int (trunc (lfo f ! i))) =
            Inr (delay_last f' ! c))"


section \<open>Rounding to doubles\<close>

lemma powi_less_imp_less:
  assumes "(2::real) powi a \<le> x" and "x < 2 powi b"
  shows "a < b"
proof (rule ccontr)
  assume "\<not> a < b"
  then have "(2::real) powi b \<le> 2 powi a"
    by (intro power_int_increasing) simp_all
  with assms show False by linarith
qed

lemma two_powi_53: "(2::real) powi (a + 1) = 9007199254740992 * 2 powi (a - 52)"
proof -
  have "(2::real) powi (a - 52 + 53) = 2 powi (a - 52) * 2 powi 53"
    by (rule power_int_add) simp
  moreover have "a - 52 + 53 = a + 1"
    by simp
  ultimately have "(2::real) powi (a + 1) = 2 powi (a - 52) * 2 powi 53"
    by (simp only:)
  then show ?thesis
    by (simp only: power_int_numeral) simp
qed

lemma two_powi_52: "(2::real) powi a = 4503599627370496 * 2 powi (a - 52)"
proof -
  have "(2::real) powi (a - 52 + 52) = 2 powi (a - 52) * 2 powi 52"
    by (rule power_int_add) simp
  moreover have "a - 52 + 52 = a"
    by simp
  ultimately have "(2::real) powi a = 2 powi (a - 52) * 2 powi 52"
    by (simp only:)
  then show ?thesis
    by (simp only: power_int_numeral) simp
qed

lemma expo_bounds:
  "0 < x \<Longrightarrow> 2 powi expo x \<le> x \<and> x < 2 powi (expo x + 1)"
proof (induction x rule: expo.induct)
  case (1 x)
  show ?case
  proof (cases "2 \<le> x")
    case True
    then have e: "expo x = expo (x / 2) + 1"
      using "1.prems" by (subst expo.simps) simp
    have "2 powi expo (x / 2) \<le> x / 2 \<and> x / 2 < 2 powi (expo (x / 2) + 1)"
      using "1.IH"(1) "1.prems" True by simp
    then show ?thesis
      unfolding e by (simp add: power_int_add)
  next
    case False
    show ?thesis
    proof (cases "x < 1")
      case True
      then have e: "expo x = expo (x * 2) - 1"
        using "1.prems" False by (subst expo.simps) simp
      have "2 powi expo (x * 2) \<le> x * 2 \<and> x * 2 < 2 powi (expo (x * 2) + 1)"
        using "1.IH"(2) "1.prems" False True by simp
      then show ?thesis
        unfolding e by (simp add: power_int_add power_int_diff)
    next
      case g: False
      then have "expo x = 0"
        using "1.prems" False by (subst expo.simps) simp
      then show ?thesis
        using False g by simp
    qed
  qed
qed

lemma expo_unique:
  assumes "0 < x" and "2 powi k \<le> x" and "x < 2 powi (k + 1)"
  shows "expo x = k"
proof -
  note b = expo_bounds [OF assms(1)]
  have "expo x < k + 1"
    using b assms(3) by (intro powi_less_imp_less [of _ x]) simp_all
  moreover have "k < expo x + 1"
    using b assms(2) by (intro powi_less_imp_less [of _ x]) simp_all
  ultimately show ?thesis by simp
qed

lemma expo_mono:
  assumes "0 < x" and "x \<le> y"
  shows "expo x \<le> expo y"
proof -
  have "2 powi expo x \<le> y"
    using expo_bounds [OF assms(1)] assms(2) by simp
  moreover have "y < 2 powi (expo y + 1)"
    using expo_bounds [of y] assms by simp
  ultimately have "expo x < expo y + 1"
    by (rule powi_less_imp_less)
  then show ?thesis by simp
qed

lemma rne_of_int [simp]: "rne (of_int n) = n"
  by (simp add: rne_def)

lemma rne_floor_le: "\<lfloor>y\<rfloor> \<le> rne y"
  by (simp add: rne_def Let_def)

lemma rne_le_floor: "rne y \<le> \<lfloor>y\<rfloor> + 1"
  by (simp add: rne_def Let_def)

lemma rne_mono:
  assumes "x \<le> y"
  shows "rne x \<le> rne y"
proof (cases "\<lfloor>x\<rfloor> = \<lfloor>y\<rfloor>")
  case True
  then show ?thesis
    using assms by (auto simp: rne_def Let_def)
next
  case False
  then have "\<lfloor>x\<rfloor> < \<lfloor>y\<rfloor>"
    using floor_mono [OF assms] by simp
  then have "rne x \<le> \<lfloor>y\<rfloor>"
    using rne_le_floor [of x] by simp
  then show ?thesis
    using rne_floor_le [of y] by simp
qed

lemma rne_error: "\<bar>real_of_int (rne y) - y\<bar> \<le> 1 / 2"
proof -
  have "real_of_int \<lfloor>y\<rfloor> \<le> y" "y < real_of_int \<lfloor>y\<rfloor> + 1"
    by linarith+
  then show ?thesis
    by (auto simp: rne_def Let_def abs_le_iff)
qed

lemma fl_0 [simp]: "fl 0 = 0"
  by (simp add: fl_def)

lemma fl_minus: "fl (- x) = - fl x"
  by (simp add: fl_def Let_def sgn_minus)

lemma fl_pos:
  assumes "0 < x"
  shows "fl x = of_int (rne (x / 2 powi (max (expo x) (- 1022) - 52))) *
           2 powi (max (expo x) (- 1022) - 52)"
  using assms by (simp add: fl_def Let_def)

lemma fl_nonneg:
  assumes "0 \<le> x"
  shows "0 \<le> fl x"
proof (cases "x = 0")
  case False
  then have x: "0 < x" using assms by simp
  have "0 \<le> x / 2 powi (max (expo x) (- 1022) - 52)"
    using x by simp
  then have "rne 0 \<le> rne (x / 2 powi (max (expo x) (- 1022) - 52))"
    by (rule rne_mono)
  then show ?thesis
    unfolding fl_pos [OF x] using rne_of_int [of 0] by simp
qed simp

lemma fl_mono_pos:
  assumes x: "0 < x" and xy: "x \<le> y"
  shows "fl x \<le> fl y"
proof -
  have y: "0 < y" using x xy by simp
  let ?ex = "max (expo x) (- 1022)"
  let ?ey = "max (expo y) (- 1022)"
  have le: "?ex \<le> ?ey"
    using expo_mono [OF x xy] by simp
  show ?thesis
  proof (cases "?ex = ?ey")
    case True
    have "x / 2 powi (?ey - 52) \<le> y / 2 powi (?ey - 52)"
      using xy by (simp add: divide_right_mono)
    then have "rne (x / 2 powi (?ey - 52)) \<le> rne (y / 2 powi (?ey - 52))"
      by (rule rne_mono)
    then show ?thesis
      unfolding fl_pos [OF x] fl_pos [OF y] True by (simp add: mult_right_mono)
  next
    case False
    then have lt: "?ex < ?ey" using le by linarith
    then have ey: "?ey = expo y" by linarith
    have "x < 2 powi (expo x + 1)"
      using expo_bounds [OF x] by simp
    also have "\<dots> \<le> 2 powi (?ex + 1)"
      by (intro power_int_increasing) simp_all
    also have "\<dots> = 9007199254740992 * 2 powi (?ex - 52)"
      by (rule two_powi_53)
    finally have "x / 2 powi (?ex - 52) \<le> of_int 9007199254740992"
      by (simp add: pos_divide_le_eq)
    then have "rne (x / 2 powi (?ex - 52)) \<le> rne (of_int 9007199254740992)"
      by (rule rne_mono)
    then have "rne (x / 2 powi (?ex - 52)) \<le> 9007199254740992"
      by (simp only: rne_of_int)
    then have "real_of_int (rne (x / 2 powi (?ex - 52))) \<le> 9007199254740992"
      by linarith
    then have "fl x \<le> 9007199254740992 * 2 powi (?ex - 52)"
      unfolding fl_pos [OF x] by (simp add: mult_right_mono)
    also have "\<dots> = 2 powi (?ex + 1)"
      by (rule two_powi_53 [symmetric])
    also have "\<dots> \<le> 2 powi expo y"
    proof -
      have "?ex + 1 \<le> expo y"
        using lt ey by linarith
      then show ?thesis
        by (intro power_int_increasing) simp_all
    qed
    finally have 1: "fl x \<le> 2 powi expo y" .
    have "4503599627370496 * 2 powi (expo y - 52) \<le> y"
      using expo_bounds [OF y] two_powi_52 [of "expo y"] by simp
    then have "of_int 4503599627370496 \<le> y / 2 powi (expo y - 52)"
      by (simp add: pos_le_divide_eq)
    then have "rne (of_int 4503599627370496) \<le> rne (y / 2 powi (expo y - 52))"
      by (rule rne_mono)
    then have "4503599627370496 \<le> rne (y / 2 powi (expo y - 52))"
      by (simp only: rne_of_int)
    then have "4503599627370496 \<le> real_of_int (rne (y / 2 powi (expo y - 52)))"
      by linarith
    then have "4503599627370496 * 2 powi (expo y - 52) \<le> fl y"
      unfolding fl_pos [OF y] ey by (simp add: mult_right_mono)
    then have "2 powi expo y \<le> fl y"
      using two_powi_52 [of "expo y"] by simp
    then show ?thesis
      using 1 by linarith
  qed
qed

lemma fl_mono:
  assumes "x \<le> y"
  shows "fl x \<le> fl y"
proof -
  consider "0 < x" | "x \<le> 0" "0 \<le> y" | "y < 0"
    using assms by linarith
  then show ?thesis
  proof cases
    case 1
    then show ?thesis using assms by (rule fl_mono_pos)
  next
    case 2
    have "fl x \<le> 0"
      using fl_nonneg [of "- x"] 2(1) by (simp add: fl_minus)
    moreover have "0 \<le> fl y"
      using 2(2) by (rule fl_nonneg)
    ultimately show ?thesis by simp
  next
    case 3
    have "fl (- y) \<le> fl (- x)"
      using 3 assms by (intro fl_mono_pos) simp_all
    then show ?thesis
      by (simp add: fl_minus)
  qed
qed

lemma fl_exact:
  assumes m: "\<bar>m\<bar> < 2 ^ 53" and e: "- 1074 \<le> e"
  shows "fl (of_int m * 2 powi e) = of_int m * 2 powi e"
proof (cases "m = 0")
  case True
  then show ?thesis by simp
next
  case False
  let ?x = "real_of_int m * 2 powi e"
  have ax: "\<bar>?x\<bar> = of_int \<bar>m\<bar> * 2 powi e"
    by (simp add: abs_mult)
  have pos: "0 < \<bar>?x\<bar>"
    using False by simp
  have "real_of_int \<bar>m\<bar> < 2 powi 53"
    using m by (metis of_int_less_iff of_int_numeral of_int_power power_int_numeral)
  then have "\<bar>?x\<bar> < 2 powi 53 * 2 powi e"
    unfolding ax by (simp add: mult_strict_right_mono)
  also have "\<dots> = 2 powi (53 + e)"
    by (rule power_int_add [symmetric]) simp
  finally have "expo \<bar>?x\<bar> < 53 + e"
    using expo_bounds [OF pos] by (intro powi_less_imp_less [of _ "\<bar>?x\<bar>"]) simp_all
  then have le: "max (expo \<bar>?x\<bar>) (- 1022) - 52 \<le> e"
    using e by simp
  define E where "E = max (expo \<bar>?x\<bar>) (- 1022) - 52"
  define k where "k = nat (e - E)"
  have ek: "e = E + int k"
    using le by (simp add: k_def E_def)
  have pe: "(2::real) powi e = 2 powi E * 2 ^ k"
    unfolding ek by (simp add: power_int_add)
  have "\<bar>?x\<bar> / 2 powi E = of_int \<bar>m\<bar> * 2 powi e / 2 powi E"
    by (simp only: ax)
  also have "\<dots> = of_int \<bar>m\<bar> * 2 ^ k"
    by (simp add: pe)
  also have "\<dots> = of_int (\<bar>m\<bar> * 2 ^ k)"
    by simp
  finally have "rne (\<bar>?x\<bar> / 2 powi E) = \<bar>m\<bar> * 2 ^ k"
    by (simp only: rne_of_int)
  then have "fl ?x = sgn ?x * of_int (\<bar>m\<bar> * 2 ^ k) * 2 powi E"
    by (simp add: fl_def Let_def E_def)
  also have "\<dots> = sgn ?x * (of_int \<bar>m\<bar> * 2 powi e)"
    unfolding pe by simp
  also have "\<dots> = sgn ?x * \<bar>?x\<bar>"
    unfolding ax ..
  also have "\<dots> = ?x"
    by (simp add: sgn_mult_abs)
  finally show ?thesis .
qed

lemma fl_of_int:
  assumes "\<bar>m\<bar> < 2 ^ 53"
  shows "fl (of_int m) = of_int m"
  using fl_exact [OF assms, of 0] by simp

lemma fl_half_int:
  assumes "\<bar>m\<bar> < 2 ^ 53"
  shows "fl (of_int m / 2) = of_int m / 2"
  using fl_exact [OF assms, of "- 1"] by (simp add: field_simps)

lemma fl_le:
  assumes "x \<le> of_int m * 2 powi e" and "\<bar>m\<bar> < 2 ^ 53" and "- 1074 \<le> e"
  shows "fl x \<le> of_int m * 2 powi e"
  using fl_mono [OF assms(1)] fl_exact [OF assms(2,3)] by simp

lemma fl_ge:
  assumes "of_int m * 2 powi e \<le> x" and "\<bar>m\<bar> < 2 ^ 53" and "- 1074 \<le> e"
  shows "of_int m * 2 powi e \<le> fl x"
  using fl_mono [OF assms(1)] fl_exact [OF assms(2,3)] by simp


lemma fl_error_pos:
  assumes "0 < x"
  shows "\<bar>fl x - x\<bar> \<le> 2 powi (max (expo x) (- 1022) - 53)"
proof -
  let ?E = "max (expo x) (- 1022) - 52"
  let ?u = "(2::real) powi ?E"
  have u: "0 < ?u" by simp
  have "fl x - x = (of_int (rne (x / ?u)) - x / ?u) * ?u"
    unfolding fl_pos [OF assms] by (simp add: algebra_simps)
  then have "\<bar>fl x - x\<bar> = \<bar>of_int (rne (x / ?u)) - x / ?u\<bar> * ?u"
    by (simp add: abs_mult)
  also have "\<dots> \<le> 1 / 2 * ?u"
    using rne_error [of "x / ?u"] u by (intro mult_right_mono) simp_all
  also have "\<dots> = 2 powi (?E - 1)"
    by (simp add: power_int_diff)
  finally show ?thesis by (simp add: algebra_simps)
qed

lemma fl_error:
  assumes "\<bar>x\<bar> \<le> 2 powi k" and "- 1022 \<le> k"
  shows "\<bar>fl x - x\<bar> \<le> 2 powi (k - 53)"
proof (cases "x = 0")
  case True
  then show ?thesis by simp
next
  case False
  then have a: "0 < \<bar>x\<bar>" by simp
  have "expo \<bar>x\<bar> < k + 1"
  proof (rule powi_less_imp_less)
    show "2 powi expo \<bar>x\<bar> \<le> \<bar>x\<bar>"
      using expo_bounds [OF a] by simp
    have "(2::real) powi k < 2 powi (k + 1)"
      by (intro power_int_strict_increasing) simp_all
    then show "\<bar>x\<bar> < 2 powi (k + 1)"
      using assms(1) by linarith
  qed
  then have "max (expo \<bar>x\<bar>) (- 1022) - 53 \<le> k - 53"
    using assms(2) by simp
  then have "(2::real) powi (max (expo \<bar>x\<bar>) (- 1022) - 53) \<le> 2 powi (k - 53)"
    by (intro power_int_increasing) simp_all
  moreover have "\<bar>fl \<bar>x\<bar> - \<bar>x\<bar>\<bar> \<le> 2 powi (max (expo \<bar>x\<bar>) (- 1022) - 53)"
    using a by (rule fl_error_pos)
  moreover have "\<bar>fl \<bar>x\<bar> - \<bar>x\<bar>\<bar> = \<bar>fl x - x\<bar>"
    by (cases "0 \<le> x") (simp_all add: fl_minus abs_if)
  ultimately show ?thesis by linarith
qed

lemma fl_error_1:
  assumes "\<bar>x\<bar> \<le> 1"
  shows "\<bar>fl x - x\<bar> \<le> 1 / 2 ^ 53"
  using fl_error [of x 0] assms by (simp add: power_int_minus_divide)

lemma fl_error_2:
  assumes "\<bar>x\<bar> \<le> 2"
  shows "\<bar>fl x - x\<bar> \<le> 1 / 2 ^ 52"
  using fl_error [of x 1] assms by (simp add: power_int_minus_divide)

lemma fl_1 [simp]: "fl 1 = 1"
  using fl_of_int [of 1] by simp

lemma fl_numeral:
  assumes "numeral n < (2 ^ 53 :: int)"
  shows "fl (numeral n) = numeral n"
  using fl_of_int [of "numeral n"] assms by simp

lemma fl_le_numeral:
  assumes "x \<le> numeral n" and "numeral n < (2 ^ 53 :: int)"
  shows "fl x \<le> numeral n"
  using fl_mono [OF assms(1)] fl_numeral [OF assms(2)] by simp

lemma fl_le_1: "x \<le> 1 \<Longrightarrow> fl x \<le> 1"
  using fl_mono [of x 1] by simp

lemma fl_ge_1: "1 \<le> x \<Longrightarrow> 1 \<le> fl x"
  using fl_mono [of 1 x] by simp

section \<open>Properties of start\<close>

lemma and_then_Inr_iff:
  "and_then m k = Inr y \<longleftrightarrow> (\<exists>x. m = Inr x \<and> k x = Inr y)"
  by (cases m) (simp_all add: and_then_def)

lemma to_size_Inr_iff:
  "to_size x = Inr n \<longleftrightarrow> - 1 < x \<and> x < 2 ^ 32 \<and> n = nat \<lfloor>x\<rfloor>"
  by (auto simp: to_size_def)

lemma start_gains:
  assumes "sox_flanger_start gen f channels rate = Inr (SOX_SUCCESS, s)"
  shows "feedback_gain s = fdiv (feedback_gain f) 100"
    and "channel_phase s = fdiv (channel_phase f) 100"
    and "in_gain s = fdiv 1 (fadd 1 (fdiv (delay_gain f) 100))"
    and "delay_gain s =
           fmul (fdiv (fdiv (delay_gain f) 100) (fadd 1 (fdiv (delay_gain f) 100)))
             (fsub 1 \<bar>fdiv (feedback_gain f) 100\<bar>)"
  using assms unfolding sox_flanger_start_def Let_def and_then_def
  by (auto split: if_splits sum.splits)

lemma start_lengths:
  assumes "sox_flanger_start gen f channels rate = Inr (SOX_SUCCESS, s)"
  shows "to_size (fdiv rate (speed f)) = Inr (lfo_length s)"
    and "\<exists>n0. to_size (fadd (fmul (fdiv (fadd (delay_min f) (delay_depth f)) 1000) rate)
                    (1 / 2)) = Inr n0 \<and>
           delay_buf_length s = size_wrap (size_wrap (n0 + 1) + 1)"
    and "speed f \<noteq> 0"
    and "channels \<le> MAX_CHANNELS"
  using assms unfolding sox_flanger_start_def Let_def and_then_def
  by (auto split: if_splits sum.splits)

text \<open>The least speed, the double nearest to one tenth, is positive.\<close>

lemma speed_pos:
  assumes "params_in_range p"
  shows "0 < speed p"
proof -
  have "real_of_int 1 * 2 powi (- 4) \<le> fl (1 / 10)"
    by (rule fl_ge) (simp_all add: power_int_minus_divide)
  then have "1 / 16 \<le> fl (1 / 10)"
    by (simp add: power_int_minus_divide)
  then show ?thesis
    using assms by (simp add: params_in_range_def)
qed

text \<open>
  With the parameters in range, a start that succeeds has a sample rate below ten times
  \<open>2 ^ 32\<close> (the table length fits).
\<close>

lemma fl_less_imp_less:
  assumes "fl x < of_int m" and "\<bar>m\<bar> < 2 ^ 53"
  shows "x < of_int m"
proof (rule ccontr)
  assume "\<not> x < of_int m"
  then have "fl (of_int m) \<le> fl x"
    by (intro fl_mono) simp
  then show False
    using assms fl_of_int [OF assms(2)] by simp
qed

lemma fl_greater_imp_greater:
  assumes "of_int m < fl x" and "\<bar>m\<bar> < 2 ^ 53"
  shows "of_int m < x"
proof (rule ccontr)
  assume "\<not> of_int m < x"
  then have "fl x \<le> fl (of_int m)"
    by (intro fl_mono) simp
  then show False
    using assms fl_of_int [OF assms(2)] by simp
qed

lemma start_rate_bound:
  assumes p: "params_in_range p"
    and l: "to_size (fdiv rate (speed p)) = Inr l"
  shows "rate < 2 ^ 32 * 10"
proof -
  have sp: "0 < speed p" "speed p \<le> 10"
    using p speed_pos [OF p] by (simp_all add: params_in_range_def)
  have "fl (rate / speed p) < of_int 4294967296"
    using l by (simp add: to_size_Inr_iff fdiv_def)
  then have "rate / speed p < of_int 4294967296"
    by (rule fl_less_imp_less) simp
  then have "rate < 2 ^ 32 * speed p"
    using sp by (simp add: pos_divide_less_eq)
  also have "\<dots> \<le> 2 ^ 32 * 10"
    using sp by simp
  finally show ?thesis .
qed

text \<open>The delay in samples, as start computes it, is far from the wrap-around.\<close>

lemma start_delay_samples_bound:
  assumes p: "params_in_range p"
    and lo: "0 \<le> a" and hi: "a \<le> 20"
    and r: "rate < 2 ^ 32 * 10"
  shows "fadd (fmul (fdiv a 1000) rate) (1 / 2) \<le> 2684354561 / 2"
proof -
  have "a / 1000 \<le> real_of_int 1 * 2 powi (- 5)"
    using hi by (simp add: power_int_minus_divide)
  then have "fl (a / 1000) \<le> real_of_int 1 * 2 powi (- 5)"
    by (rule fl_le) simp_all
  then have x2: "fdiv a 1000 \<le> 1 / 32"
    by (simp add: fdiv_def power_int_minus_divide)
  have x2_0: "0 \<le> fdiv a 1000"
    unfolding fdiv_def using lo by (intro fl_nonneg) simp
  have "fdiv a 1000 * rate \<le> 1342177280"
  proof (cases "0 \<le> rate")
    case True
    have "fdiv a 1000 * rate \<le> 1 / 32 * rate"
      using x2 True by (intro mult_right_mono) simp_all
    also have "\<dots> \<le> 1342177280"
      using r by simp
    finally show ?thesis .
  next
    case False
    then have "fdiv a 1000 * rate \<le> 0"
      using x2_0 by (simp add: mult_nonneg_nonpos)
    then show ?thesis by simp
  qed
  then have "fdiv a 1000 * rate \<le> real_of_int 1342177280"
    by simp
  then have "fl (fdiv a 1000 * rate) \<le> fl (real_of_int 1342177280)"
    by (rule fl_mono)
  then have x3: "fmul (fdiv a 1000) rate \<le> 1342177280"
    using fl_of_int [of 1342177280] by (simp add: fmul_def)
  then have "fmul (fdiv a 1000) rate + 1 / 2 \<le> real_of_int 2684354561 / 2"
    by simp
  then have "fl (fmul (fdiv a 1000) rate + 1 / 2) \<le> fl (real_of_int 2684354561 / 2)"
    by (rule fl_mono)
  then show ?thesis
    using fl_half_int [of 2684354561] by (simp add: fadd_def)
qed

lemma delay_sum_bounds:
  assumes p: "params_in_range p"
  shows "0 \<le> fadd (delay_min p) (delay_depth p)"
    and "fadd (delay_min p) (delay_depth p) \<le> 20"
proof -
  have b: "0 \<le> delay_min p + delay_depth p" "delay_min p + delay_depth p \<le> 20"
    using p by (simp_all add: params_in_range_def)
  show "0 \<le> fadd (delay_min p) (delay_depth p)"
    unfolding fadd_def using b(1) by (rule fl_nonneg)
  show "fadd (delay_min p) (delay_depth p) \<le> 20"
    unfolding fadd_def using b(2) by (rule fl_le_numeral) simp
qed

lemma start_delay_buf_length_eq:
  assumes p: "params_in_range p"
    and s: "sox_flanger_start gen p channels rate = Inr (SOX_SUCCESS, s)"
  shows "delay_buf_length s =
           nat \<lfloor>fadd (fmul (fdiv (fadd (delay_min p) (delay_depth p)) 1000) rate) (1 / 2)\<rfloor> + 2"
proof -
  let ?x = "fadd (fmul (fdiv (fadd (delay_min p) (delay_depth p)) 1000) rate) (1 / 2)"
  obtain n0 where n0: "to_size ?x = Inr n0"
    and len: "delay_buf_length s = size_wrap (size_wrap (n0 + 1) + 1)"
    using start_lengths(2) [OF s] by blast
  have n0_eq: "n0 = nat \<lfloor>?x\<rfloor>"
    using n0 unfolding to_size_Inr_iff by blast
  have "?x \<le> 2684354561 / 2"
    using p delay_sum_bounds [OF p] start_rate_bound [OF p start_lengths(1) [OF s]]
    by (rule start_delay_samples_bound)
  then have "\<lfloor>?x\<rfloor> < 1342177281"
    by (simp add: floor_less_iff)
  then have "n0 < 1342177281"
    using n0_eq by linarith
  then have "size_wrap (size_wrap (n0 + 1) + 1) = n0 + 2"
    by (simp add: size_wrap_def)
  then show ?thesis
    using len n0_eq by simp
qed

text \<open>
  Evaluation of the rounding on numerals. The rules apply to literals only, so that a
  value still unknown is left alone.
\<close>

lemma fl_eval_numeral:
  "fl (numeral a) =
     (let e = max (expo (numeral a)) (- 1022) - 52
      in of_int (rne (numeral a / 2 powi e)) * 2 powi e)"
  by (simp add: fl_def)

lemma fl_eval_frac:
  "fl (numeral a / numeral b) =
     (let e = max (expo (numeral a / numeral b)) (- 1022) - 52
      in of_int (rne (numeral a / numeral b / 2 powi e)) * 2 powi e)"
  by (simp add: fl_def)

lemma fl_eval_inverse:
  "fl (1 / numeral b) =
     (let e = max (expo (1 / numeral b)) (- 1022) - 52
      in of_int (rne (1 / numeral b / 2 powi e)) * 2 powi e)"
  by (simp add: fl_def)

lemmas expo_eval =
  expo.simps [of "numeral a"] expo.simps [of "numeral a / numeral b"]
  expo.simps [of "1 / numeral b"] expo.simps [of 1]
  for a b

lemmas fl_eval =
  fadd_def fsub_def fmul_def fdiv_def fl_minus fl_eval_numeral fl_eval_frac fl_eval_inverse
  expo_eval rne_def Let_def

lemmas start_eval =
  sox_flanger_start_def getopts_defaults_def flat_wave_def MAX_CHANNELS_def and_then_def
  to_size_def size_wrap_def M_PI_2_def fl_eval

text \<open>How far the rounded gains are from the quotients and products of real numbers.\<close>

lemma abs_diff_chain:
  fixes a b c :: real
  assumes "\<bar>a - b\<bar> \<le> e1" and "\<bar>b - c\<bar> \<le> e2" and "e1 + e2 \<le> e"
  shows "\<bar>a - c\<bar> \<le> e"
  using assms by linarith

lemma abs_prod_diff:
  fixes a b a' b' :: real
  assumes "\<bar>a - a'\<bar> \<le> ea" and "\<bar>b - b'\<bar> \<le> eb" and "\<bar>b\<bar> \<le> 1" and "\<bar>a'\<bar> \<le> 1"
  shows "\<bar>a * b - a' * b'\<bar> \<le> ea + eb"
proof -
  have "a * b - a' * b' = (a - a') * b + a' * (b - b')"
    by (simp add: algebra_simps)
  then have "\<bar>a * b - a' * b'\<bar> \<le> \<bar>(a - a') * b\<bar> + \<bar>a' * (b - b')\<bar>"
    by (simp only: abs_triangle_ineq)
  also have "\<dots> = \<bar>a - a'\<bar> * \<bar>b\<bar> + \<bar>a'\<bar> * \<bar>b - b'\<bar>"
    by (simp only: abs_mult)
  also have "\<dots> \<le> ea * 1 + 1 * eb"
  proof (intro add_mono mult_mono)
    show "0 \<le> ea" using assms(1) by linarith
  qed (use assms in simp_all)
  finally show ?thesis by simp
qed

lemma abs_quot_diff:
  fixes a s a' s' :: real
  assumes "1 \<le> s" and "1 \<le> s'" and "\<bar>a - a'\<bar> \<le> ea" and "\<bar>s - s'\<bar> \<le> es" and "\<bar>a'\<bar> \<le> 1"
  shows "\<bar>a / s - a' / s'\<bar> \<le> ea + es"
proof -
  have "a / s - a' / s' = (a - a') * (1 / s) + a' * ((s' - s) / (s * s'))"
    using assms(1,2) by (simp add: field_simps)
  then have "\<bar>a / s - a' / s'\<bar> \<le> \<bar>(a - a') * (1 / s)\<bar> + \<bar>a' * ((s' - s) / (s * s'))\<bar>"
    by (simp only: abs_triangle_ineq)
  also have "\<dots> = \<bar>a - a'\<bar> * \<bar>1 / s\<bar> + \<bar>a'\<bar> * \<bar>(s' - s) / (s * s')\<bar>"
    by (simp only: abs_mult)
  also have "\<dots> \<le> ea * 1 + 1 * es"
  proof (intro add_mono mult_mono)
    show "0 \<le> ea" using assms(3) by linarith
    show "\<bar>1 / s\<bar> \<le> 1" using assms(1) by simp
    have "1 \<le> s * s'"
      using mult_mono [of 1 s 1 s'] assms(1,2) by simp
    then have pos: "0 < s * s'"
      by linarith
    have "\<bar>(s' - s) / (s * s')\<bar> = \<bar>s' - s\<bar> / (s * s')"
      using pos by (simp only: abs_divide abs_of_pos)
    also have "\<dots> \<le> \<bar>s' - s\<bar> / 1"
      using \<open>1 \<le> s * s'\<close> by (intro divide_left_mono) simp_all
    also have "\<dots> = \<bar>s - s'\<bar>"
      by (simp add: abs_minus_commute)
    also have "\<dots> \<le> es"
      by (rule assms(4))
    finally show "\<bar>(s' - s) / (s * s')\<bar> \<le> es" .
  qed (use assms in simp_all)
  finally show ?thesis by simp
qed

lemma fl_abs_le_1:
  assumes "\<bar>x\<bar> \<le> 1"
  shows "\<bar>fl x\<bar> \<le> 1"
proof -
  have "fl x \<le> 1"
    using assms by (intro fl_le_1) simp
  moreover have "fl (- x) \<le> 1"
    using assms by (intro fl_le_1) simp
  ultimately show ?thesis
    by (simp add: fl_minus abs_le_iff)
qed

lemma percent_error:
  assumes "\<bar>a\<bar> \<le> 100"
  shows "\<bar>fdiv a 100 - a / 100\<bar> \<le> 1 / 2 ^ 53" and "\<bar>fdiv a 100\<bar> \<le> 1"
proof -
  have b: "\<bar>a / 100\<bar> \<le> 1"
    using assms by simp
  show "\<bar>fdiv a 100 - a / 100\<bar> \<le> 1 / 2 ^ 53"
    unfolding fdiv_def using b by (rule fl_error_1)
  show "\<bar>fdiv a 100\<bar> \<le> 1"
    unfolding fdiv_def using b by (rule fl_abs_le_1)
qed

lemma gain_errors:
  assumes m: "0 \<le> m" "m \<le> 100" and g: "\<bar>g\<bar> \<le> 100"
  shows "\<bar>fdiv 1 (fadd 1 (fdiv m 100)) - 1 / (1 + m / 100)\<bar> \<le> 1 / 2 ^ 50"
    and "\<bar>fmul (fdiv (fdiv m 100) (fadd 1 (fdiv m 100))) (fsub 1 \<bar>fdiv g 100\<bar>) -
           m / 100 / (1 + m / 100) * (1 - \<bar>g / 100\<bar>)\<bar> \<le> 1 / 2 ^ 50"
proof -
  define dg0 where "dg0 = fdiv m 100"
  define s where "s = fadd 1 dg0"
  define fg where "fg = fdiv g 100"
  define t where "t = fsub 1 \<bar>fg\<bar>"
  define dg1 where "dg1 = fdiv dg0 s"
  have e1: "\<bar>dg0 - m / 100\<bar> \<le> 1 / 2 ^ 53" and a1: "\<bar>dg0\<bar> \<le> 1"
    unfolding dg0_def using m by (intro percent_error; simp)+
  have n1: "0 \<le> dg0"
    unfolding dg0_def fdiv_def using m by (intro fl_nonneg) simp
  have b1: "dg0 \<le> 1"
    using a1 by simp
  have e2: "\<bar>s - (1 + dg0)\<bar> \<le> 1 / 2 ^ 52"
    unfolding s_def fadd_def using n1 b1 by (intro fl_error_2) simp
  have s1: "1 \<le> s"
    unfolding s_def fadd_def using n1 by (intro fl_ge_1) simp
  have "\<bar>(1 + dg0) - (1 + m / 100)\<bar> \<le> 1 / 2 ^ 53"
    using e1 by simp
  with e2 have es: "\<bar>s - (1 + m / 100)\<bar> \<le> 3 / 2 ^ 53"
    by (rule abs_diff_chain) simp
  have m1: "1 \<le> 1 + m / 100"
    using m by simp
  have q1: "\<bar>1 / s - 1 / (1 + m / 100)\<bar> \<le> 0 + 3 / 2 ^ 53"
    using s1 m1 _ es by (rule abs_quot_diff) simp_all
  have r1: "\<bar>1 / s\<bar> \<le> 1"
    using s1 by simp
  have e3: "\<bar>fdiv 1 s - 1 / s\<bar> \<le> 1 / 2 ^ 53"
    unfolding fdiv_def using r1 by (rule fl_error_1)
  have "\<bar>fdiv 1 s - 1 / (1 + m / 100)\<bar> \<le> 1 / 2 ^ 50"
    using e3 q1 by (rule abs_diff_chain) simp
  then show "\<bar>fdiv 1 (fadd 1 (fdiv m 100)) - 1 / (1 + m / 100)\<bar> \<le> 1 / 2 ^ 50"
    by (simp add: s_def dg0_def)
  have mm: "\<bar>m / 100\<bar> \<le> 1"
    using m by simp
  have q2: "\<bar>dg0 / s - m / 100 / (1 + m / 100)\<bar> \<le> 1 / 2 ^ 53 + 3 / 2 ^ 53"
    using s1 m1 e1 es mm by (rule abs_quot_diff)
  have "dg0 / s \<le> dg0 / 1"
    using s1 n1 by (intro divide_left_mono) simp_all
  then have r2: "\<bar>dg0 / s\<bar> \<le> 1"
    using n1 s1 b1 by simp
  have e4: "\<bar>dg1 - dg0 / s\<bar> \<le> 1 / 2 ^ 53"
    unfolding dg1_def fdiv_def using r2 by (rule fl_error_1)
  have a4: "\<bar>dg1\<bar> \<le> 1"
    unfolding dg1_def fdiv_def using r2 by (rule fl_abs_le_1)
  have d4: "\<bar>dg1 - m / 100 / (1 + m / 100)\<bar> \<le> 5 / 2 ^ 53"
    using e4 q2 by (rule abs_diff_chain) simp
  have e5: "\<bar>fg - g / 100\<bar> \<le> 1 / 2 ^ 53" and a5: "\<bar>fg\<bar> \<le> 1"
    unfolding fg_def using g by (intro percent_error; simp)+
  have r6: "\<bar>1 - \<bar>fg\<bar>\<bar> \<le> 1"
    using a5 by simp
  have e6: "\<bar>t - (1 - \<bar>fg\<bar>)\<bar> \<le> 1 / 2 ^ 53"
    unfolding t_def fsub_def using r6 by (rule fl_error_1)
  have a6: "\<bar>t\<bar> \<le> 1"
    unfolding t_def fsub_def using r6 by (rule fl_abs_le_1)
  have "\<bar>(1 - \<bar>fg\<bar>) - (1 - \<bar>g / 100\<bar>)\<bar> \<le> 1 / 2 ^ 53"
    using e5 by linarith
  with e6 have d6: "\<bar>t - (1 - \<bar>g / 100\<bar>)\<bar> \<le> 2 / 2 ^ 53"
    by (rule abs_diff_chain) simp
  have "m / 100 / (1 + m / 100) \<le> m / 100 / 1"
    using m m1 by (intro divide_left_mono) simp_all
  then have a7: "\<bar>m / 100 / (1 + m / 100)\<bar> \<le> 1"
    using m by simp
  have q7: "\<bar>dg1 * t - m / 100 / (1 + m / 100) * (1 - \<bar>g / 100\<bar>)\<bar> \<le> 5 / 2 ^ 53 + 2 / 2 ^ 53"
    using d4 d6 a6 a7 by (rule abs_prod_diff)
  have "\<bar>dg1 * t\<bar> \<le> 1 * 1"
    unfolding abs_mult using a4 a6 by (intro mult_mono) simp_all
  then have r7: "\<bar>dg1 * t\<bar> \<le> 1"
    by simp
  have e7: "\<bar>fmul dg1 t - dg1 * t\<bar> \<le> 1 / 2 ^ 53"
    unfolding fmul_def using r7 by (rule fl_error_1)
  have "\<bar>fmul dg1 t - m / 100 / (1 + m / 100) * (1 - \<bar>g / 100\<bar>)\<bar> \<le> 1 / 2 ^ 50"
    using e7 q7 by (rule abs_diff_chain) simp
  then show "\<bar>fmul (fdiv (fdiv m 100) (fadd 1 (fdiv m 100))) (fsub 1 \<bar>fdiv g 100\<bar>) -
           m / 100 / (1 + m / 100) * (1 - \<bar>g / 100\<bar>)\<bar> \<le> 1 / 2 ^ 50"
    by (simp add: dg1_def t_def s_def dg0_def fg_def)
qed

text \<open>
  The delay in samples as start computes it, against the delay in samples over the real
  numbers: the four roundings together move it by less than one.
\<close>

lemma fl_error_pow:
  assumes "\<bar>x\<bar> \<le> 2 ^ k"
  shows "\<bar>fl x - x\<bar> \<le> 2 ^ k / 2 ^ 53"
proof -
  have "\<bar>x\<bar> \<le> 2 powi int k"
    using assms by simp
  then have "\<bar>fl x - x\<bar> \<le> 2 powi (int k - 53)"
    by (rule fl_error) simp
  also have "(2::real) powi (int k - 53) = 2 powi int k / 2 powi 53"
    by (rule power_int_diff) simp
  finally show ?thesis
    by simp
qed

lemma fl_abs_le_int:
  assumes "\<bar>x\<bar> \<le> of_int m" and "\<bar>m\<bar> < 2 ^ 53"
  shows "\<bar>fl x\<bar> \<le> of_int m"
proof -
  have "fl x \<le> fl (of_int m)"
    using assms(1) by (intro fl_mono) simp
  moreover have "fl (- x) \<le> fl (of_int m)"
    using assms(1) by (intro fl_mono) simp
  ultimately show ?thesis
    using fl_of_int [OF assms(2)] by (simp add: fl_minus abs_le_iff)
qed

lemma floor_near:
  fixes y z :: real
  assumes "\<bar>y - z\<bar> \<le> 1"
  shows "\<lfloor>z\<rfloor> - 1 \<le> \<lfloor>y\<rfloor>" and "\<lfloor>y\<rfloor> \<le> \<lfloor>z\<rfloor> + 1"
proof -
  have "of_int (\<lfloor>z\<rfloor> - 1) \<le> z - 1"
    by simp
  also have "\<dots> \<le> y"
    using assms by linarith
  finally show "\<lfloor>z\<rfloor> - 1 \<le> \<lfloor>y\<rfloor>"
    by (simp only: le_floor_iff)
  have "y \<le> z + 1"
    using assms by linarith
  also have "\<dots> < of_int (\<lfloor>z\<rfloor> + 1) + 1"
    by simp linarith
  finally have "\<lfloor>y\<rfloor> < \<lfloor>z\<rfloor> + 1 + 1"
    by (simp only: floor_less_iff of_int_add of_int_1)
  then show "\<lfloor>y\<rfloor> \<le> \<lfloor>z\<rfloor> + 1"
    by simp
qed

lemma start_delay_samples_error:
  assumes a: "0 \<le> a" "a \<le> 20"
    and r: "- 10 < rate" "rate < 2 ^ 32 * 10"
  shows "\<bar>fadd (fmul (fdiv (fl a) 1000) rate) (1 / 2) - (a / 1000 * rate + 1 / 2)\<bar> \<le> 1"
proof -
  define x1 where "x1 = fl a"
  define x2 where "x2 = fdiv x1 1000"
  define x3 where "x3 = fmul x2 rate"
  have "\<bar>a\<bar> \<le> 2 ^ 5"
    using a by simp
  then have "\<bar>fl a - a\<bar> \<le> 2 ^ 5 / 2 ^ 53"
    by (rule fl_error_pow)
  then have e1: "\<bar>x1 - a\<bar> \<le> 1 / 2 ^ 48"
    by (simp add: x1_def)
  have b1: "0 \<le> x1" "x1 \<le> 20"
    unfolding x1_def using a by (intro fl_nonneg fl_le_numeral; simp)+
  have "\<bar>x1 / 1000\<bar> \<le> 1"
    using b1 by simp
  then have e2: "\<bar>x2 - x1 / 1000\<bar> \<le> 1 / 2 ^ 53"
    unfolding x2_def fdiv_def by (rule fl_error_1)
  have "\<bar>x1 / 1000 - a / 1000\<bar> = \<bar>x1 - a\<bar> / 1000"
    by (simp add: diff_divide_distrib [symmetric])
  also have "\<dots> \<le> 1 / 2 ^ 48 / 1000"
    using e1 by (intro divide_right_mono) simp_all
  also have "\<dots> \<le> 1 / 2 ^ 53"
    by simp
  finally have "\<bar>x1 / 1000 - a / 1000\<bar> \<le> 1 / 2 ^ 53" .
  with e2 have d2: "\<bar>x2 - a / 1000\<bar> \<le> 1 / 2 ^ 52"
    by (rule abs_diff_chain) simp
  have "x1 / 1000 \<le> real_of_int 1 * 2 powi (- 5)"
    using b1 by (simp add: power_int_minus_divide)
  then have "fl (x1 / 1000) \<le> real_of_int 1 * 2 powi (- 5)"
    by (rule fl_le) simp_all
  then have b2: "x2 \<le> 1 / 32"
    by (simp add: x2_def fdiv_def power_int_minus_divide)
  have n2: "0 \<le> x2"
    unfolding x2_def fdiv_def using b1 by (intro fl_nonneg) simp
  have ar: "\<bar>rate\<bar> \<le> 2 ^ 36"
    using r by simp
  have "x2 * rate - a / 1000 * rate = (x2 - a / 1000) * rate"
    by (simp add: algebra_simps)
  then have "\<bar>x2 * rate - a / 1000 * rate\<bar> = \<bar>x2 - a / 1000\<bar> * \<bar>rate\<bar>"
    by (simp only: abs_mult)
  also have "\<dots> \<le> 1 / 2 ^ 52 * 2 ^ 36"
    using d2 ar by (intro mult_mono) simp_all
  also have "\<dots> = 1 / 2 ^ 16"
    by simp
  finally have d3: "\<bar>x2 * rate - a / 1000 * rate\<bar> \<le> 1 / 2 ^ 16" .
  have "\<bar>x2 * rate\<bar> = \<bar>x2\<bar> * \<bar>rate\<bar>"
    by (rule abs_mult)
  also have "\<dots> \<le> 1 / 32 * 2 ^ 36"
    using b2 n2 ar by (intro mult_mono) simp_all
  also have "\<dots> = 2 ^ 31"
    by simp
  finally have m3: "\<bar>x2 * rate\<bar> \<le> 2 ^ 31" .
  then have e3: "\<bar>x3 - x2 * rate\<bar> \<le> 2 ^ 31 / 2 ^ 53"
    unfolding x3_def fmul_def by (rule fl_error_pow)
  have "\<bar>x2 * rate\<bar> \<le> real_of_int 2147483648"
    using m3 by simp
  then have "\<bar>fl (x2 * rate)\<bar> \<le> real_of_int 2147483648"
    by (rule fl_abs_le_int) simp
  then have "\<bar>x3 + 1 / 2\<bar> \<le> 2 ^ 32"
    by (simp add: x3_def fmul_def)
  then have e4: "\<bar>fadd x3 (1 / 2) - (x3 + 1 / 2)\<bar> \<le> 2 ^ 32 / 2 ^ 53"
    unfolding fadd_def by (rule fl_error_pow)
  have "\<bar>x3 - a / 1000 * rate\<bar> \<le> 1 / 2 ^ 15"
    using e3 d3 by (rule abs_diff_chain) simp
  then have "\<bar>(x3 + 1 / 2) - (a / 1000 * rate + 1 / 2)\<bar> \<le> 1 / 2 ^ 15"
    by simp
  with e4 have "\<bar>fadd x3 (1 / 2) - (a / 1000 * rate + 1 / 2)\<bar> \<le> 1"
    by (rule abs_diff_chain) simp
  then show ?thesis
    by (simp add: x3_def x2_def x1_def)
qed

lemma start_rate_lower:
  assumes p: "params_in_range p"
    and l: "to_size (fdiv rate (speed p)) = Inr l"
  shows "- 10 < rate"
proof -
  have sp: "0 < speed p" "speed p \<le> 10"
    using p speed_pos [OF p] by (simp_all add: params_in_range_def)
  have "of_int (- 1) < fl (rate / speed p)"
    using l by (simp add: to_size_Inr_iff fdiv_def)
  then have "of_int (- 1) < rate / speed p"
    by (rule fl_greater_imp_greater) simp
  then have "- speed p < rate"
    using sp by (simp add: pos_less_divide_eq)
  then show ?thesis
    using sp by linarith
qed

lemma start_delay_buf_length_near:
  assumes p: "params_in_range p"
    and s: "sox_flanger_start gen p channels rate = Inr (SOX_SUCCESS, s)"
  shows "nat (round ((delay_min p + delay_depth p) / 1000 * rate)) + 1 \<le> delay_buf_length s"
    and "delay_buf_length s \<le> nat (round ((delay_min p + delay_depth p) / 1000 * rate)) + 3"
proof -
  let ?a = "delay_min p + delay_depth p"
  let ?y = "fadd (fmul (fdiv (fadd (delay_min p) (delay_depth p)) 1000) rate) (1 / 2)"
  let ?z = "?a / 1000 * rate + 1 / 2"
  have a: "0 \<le> ?a" "?a \<le> 20"
    using p by (simp_all add: params_in_range_def)
  note l = start_lengths(1) [OF s]
  have "\<bar>?y - ?z\<bar> \<le> 1"
    unfolding fadd_def [of "delay_min p"]
    using a start_rate_lower [OF p l] start_rate_bound [OF p l]
    by (rule start_delay_samples_error)
  then have "\<lfloor>?z\<rfloor> - 1 \<le> \<lfloor>?y\<rfloor>" "\<lfloor>?y\<rfloor> \<le> \<lfloor>?z\<rfloor> + 1"
    by (rule floor_near)+
  then have "nat \<lfloor>?z\<rfloor> \<le> nat \<lfloor>?y\<rfloor> + 1" "nat \<lfloor>?y\<rfloor> \<le> nat \<lfloor>?z\<rfloor> + 1"
    by linarith+
  then show "nat (round (?a / 1000 * rate)) + 1 \<le> delay_buf_length s"
    and "delay_buf_length s \<le> nat (round (?a / 1000 * rate)) + 3"
    unfolding start_delay_buf_length_eq [OF p s] round_def by simp_all
qed

text \<open>
  C2, as the claim has it, fails: the table length is the quotient converted to
  \<^verbatim>\<open>sox_size_t\<close>, which discards the fraction. At 8000 Hz and a speed of 3 Hz (in range)
  the quotient is 2666.67: the length is 2666, the nearest integer is 2667.
\<close>

theorem lfo_length_round_counterexample:
  "params_in_range (getopts_defaults\<lparr>speed := 3\<rparr>) \<and>
   map_sum id (map_prod id lfo_length)
     (sox_flanger_start flat_wave (getopts_defaults\<lparr>speed := 3\<rparr>) 1 8000) =
       Inr (SOX_SUCCESS, 2666) \<and>
   round (8000 / speed (getopts_defaults\<lparr>speed := 3\<rparr>)) = 2667"
  by (simp add: params_in_range_def start_eval round_def)

text \<open>
  C2, amended: for every configuration in range and every sample rate, after a
  successful start the LFO table length is the quotient of the sample rate by the speed,
  as the division of doubles gives it (the nearest double), with its fraction discarded.
  It is the integral part of the quotient of real numbers, or one more (when the division
  rounds up to the next integer). The witness is a speed of \<^verbatim>\<open>0.1\<close> at 44100 Hz: the double
  is a little more than one tenth, the quotient a little less than 441000, and the length
  441000.
\<close>

theorem start_lfo_length:
  assumes "params_in_range p"
    and "sox_flanger_start gen p channels rate = Inr (SOX_SUCCESS, s)"
  shows "lfo_length s = nat \<lfloor>fdiv rate (speed p)\<rfloor> \<and>
         nat \<lfloor>rate / speed p\<rfloor> \<le> lfo_length s \<and>
         lfo_length s \<le> nat \<lfloor>rate / speed p\<rfloor> + 1"
proof -
  let ?q = "rate / speed p"
  have l: "- 1 < fl ?q" "fl ?q < 2 ^ 32" "lfo_length s = nat \<lfloor>fl ?q\<rfloor>"
    using start_lengths(1) [OF assms(2)] by (simp_all add: to_size_Inr_iff fdiv_def)
  have "fl ?q < of_int 4294967296"
    using l(2) by simp
  then have "?q < of_int 4294967296"
    by (rule fl_less_imp_less) simp
  then have hi: "\<lfloor>?q\<rfloor> < 4294967296"
    by (simp add: floor_less_iff)
  have "of_int (- 1) < fl ?q"
    using l(1) by simp
  then have "of_int (- 1) < ?q"
    by (rule fl_greater_imp_greater) simp
  then have lo: "- 1 \<le> \<lfloor>?q\<rfloor>"
    by (simp add: le_floor_iff)
  have "\<bar>\<lfloor>?q\<rfloor>\<bar> < 9007199254740992" "\<bar>\<lfloor>?q\<rfloor> + 1\<bar> < 9007199254740992"
    using lo hi by linarith+
  then have ab: "\<bar>\<lfloor>?q\<rfloor>\<bar> < 2 ^ 53" "\<bar>\<lfloor>?q\<rfloor> + 1\<bar> < 2 ^ 53"
    by simp_all
  have "fl (of_int \<lfloor>?q\<rfloor>) \<le> fl ?q"
    by (intro fl_mono) simp
  moreover have "fl (of_int \<lfloor>?q\<rfloor>) = of_int \<lfloor>?q\<rfloor>"
    using ab(1) by (rule fl_of_int)
  ultimately have 1: "\<lfloor>?q\<rfloor> \<le> \<lfloor>fl ?q\<rfloor>"
    by (simp add: le_floor_iff)
  have "fl ?q \<le> fl (of_int (\<lfloor>?q\<rfloor> + 1))"
    by (intro fl_mono) linarith
  moreover have "fl (of_int (\<lfloor>?q\<rfloor> + 1)) = of_int (\<lfloor>?q\<rfloor> + 1)"
    using ab(2) by (rule fl_of_int)
  ultimately have "fl ?q \<le> of_int (\<lfloor>?q\<rfloor> + 1)"
    by simp
  then have 2: "\<lfloor>fl ?q\<rfloor> \<le> \<lfloor>?q\<rfloor> + 1"
    by (metis floor_mono floor_of_int)
  have "nat \<lfloor>?q\<rfloor> \<le> nat \<lfloor>fl ?q\<rfloor>" "nat \<lfloor>fl ?q\<rfloor> \<le> nat \<lfloor>?q\<rfloor> + 1"
    using 1 2 by linarith+
  then show ?thesis
    using l(3) by (simp add: fdiv_def)
qed

theorem start_lfo_length_witness:
  "params_in_range (getopts_defaults\<lparr>speed := fl (1 / 10)\<rparr>) \<and>
   (\<exists>s. sox_flanger_start flat_wave (getopts_defaults\<lparr>speed := fl (1 / 10)\<rparr>) 1 44100 =
          Inr (SOX_SUCCESS, s) \<and>
        lfo_length s = 441000 \<and>
        nat \<lfloor>44100 / speed (getopts_defaults\<lparr>speed := fl (1 / 10)\<rparr>)\<rfloor> = 440999)"
proof -
  let ?p = "getopts_defaults\<lparr>speed := fl (1 / 10)\<rparr>"
  have p: "params_in_range ?p"
    by (simp add: params_in_range_def getopts_defaults_def fl_eval)
  obtain s where s: "sox_flanger_start flat_wave ?p 1 44100 = Inr (SOX_SUCCESS, s)"
    by (simp add: start_eval)
  have "lfo_length s = nat \<lfloor>fdiv 44100 (speed ?p)\<rfloor>"
    using start_lfo_length [OF p s] by blast
  then have "lfo_length s = 441000"
    by (simp add: getopts_defaults_def fl_eval)
  moreover have "nat \<lfloor>44100 / speed ?p\<rfloor> = 440999"
    by (simp add: getopts_defaults_def fl_eval)
  ultimately show ?thesis
    using p s by blast
qed

text \<open>
  C3, as the claim has it, fails: the sum of the delays, its thousandth and the product
  with the sample rate are each rounded to a double before one half is added and the
  fraction discarded. With a delay of 0 and a depth of 9 ms (in range) at 1500 Hz the
  delay is 13.5 samples, which rounds to 14, so that the claim has a length of 16; the
  doubles give a product just below 13.5 and a length of 15.
\<close>

theorem delay_buf_length_round_counterexample:
  "params_in_range (getopts_defaults\<lparr>delay_depth := 9\<rparr>) \<and>
   map_sum id (map_prod id delay_buf_length)
     (sox_flanger_start flat_wave (getopts_defaults\<lparr>delay_depth := 9\<rparr>) 1 1500) =
       Inr (SOX_SUCCESS, 15) \<and>
   nat (round ((delay_min (getopts_defaults\<lparr>delay_depth := 9\<rparr>) +
                delay_depth (getopts_defaults\<lparr>delay_depth := 9\<rparr>)) / 1000 * 1500)) + 2 = 16"
  by (simp add: params_in_range_def start_eval round_def)

text \<open>
  C3, amended: for every configuration in range and every sample rate, after a
  successful start the length of the delay buffers is 2 more than the integral part of
  \<open>(delay_min + delay_depth) / 1000 * rate + 0.5\<close>, where the sum, the quotient, the
  product and the last sum are those of doubles (each the nearest double). It differs by
  at most one from the length of the claim, the delay in samples over the real numbers
  rounded to the nearest integer, plus 2. The witness is the scenario of the claim:
  44100 Hz, a delay of 0 and a depth of 2 ms give 90.
\<close>

theorem start_delay_buf_length:
  assumes "params_in_range p"
    and "sox_flanger_start gen p channels rate = Inr (SOX_SUCCESS, s)"
  shows "delay_buf_length s =
           nat \<lfloor>fadd (fmul (fdiv (fadd (delay_min p) (delay_depth p)) 1000) rate) (1 / 2)\<rfloor> + 2 \<and>
         nat (round ((delay_min p + delay_depth p) / 1000 * rate)) + 1 \<le> delay_buf_length s \<and>
         delay_buf_length s \<le> nat (round ((delay_min p + delay_depth p) / 1000 * rate)) + 3"
  using start_delay_buf_length_eq [OF assms] start_delay_buf_length_near [OF assms]
  by (intro conjI)

theorem start_delay_buf_length_witness:
  "params_in_range getopts_defaults \<and>
   delay_min getopts_defaults = 0 \<and> delay_depth getopts_defaults = 2 \<and>
   (\<exists>s. sox_flanger_start flat_wave getopts_defaults 2 44100 = Inr (SOX_SUCCESS, s) \<and>
        delay_buf_length s = 90)"
proof -
  have p: "params_in_range getopts_defaults"
    by (simp add: params_in_range_def getopts_defaults_def fl_eval)
  obtain s where s: "sox_flanger_start flat_wave getopts_defaults 2 44100 = Inr (SOX_SUCCESS, s)"
    by (simp add: start_eval)
  have "delay_buf_length s =
      nat \<lfloor>fadd (fmul (fdiv (fadd (delay_min getopts_defaults) (delay_depth getopts_defaults))
        1000) 44100) (1 / 2)\<rfloor> + 2"
    using start_delay_buf_length [OF p s] by (rule conjunct1)
  then have "delay_buf_length s = 90"
    by (simp add: getopts_defaults_def fl_eval)
  then show ?thesis
    using p s by (auto simp: getopts_defaults_def)
qed

text \<open>
  C4: for every configuration in range, a successful start derives the gains from the
  percentages by the formulas of the claim: the feedback gain and the channel phase are
  the percentages over 100, the input gain is \<open>1 / (1 + mix)\<close> and the gain of the delayed
  signal is \<open>mix / (1 + mix) * (1 - \<bar>feedback\<bar>)\<close>, where \<open>mix\<close> is the width over 100. The
  operations are those of doubles, and each gain is within \<open>1 / 2 ^ 50\<close> of the value the
  formula has in the real numbers. The witness is the scenario of the claim, a feedback
  of 50 and a width of 71: the gains are the doubles that the expressions
  \<^verbatim>\<open>1 / 1.71\<close> and \<^verbatim>\<open>(0.71 / 1.71) * (1 - 0.5)\<close> denote.
\<close>

theorem start_gain_balance:
  assumes "params_in_range p"
    and "sox_flanger_start gen p channels rate = Inr (SOX_SUCCESS, s)"
  shows "feedback_gain s = fdiv (feedback_gain p) 100 \<and>
         channel_phase s = fdiv (channel_phase p) 100 \<and>
         in_gain s = fdiv 1 (fadd 1 (fdiv (delay_gain p) 100)) \<and>
         delay_gain s =
           fmul (fdiv (fdiv (delay_gain p) 100) (fadd 1 (fdiv (delay_gain p) 100)))
             (fsub 1 \<bar>fdiv (feedback_gain p) 100\<bar>) \<and>
         \<bar>feedback_gain s - feedback_gain p / 100\<bar> \<le> 1 / 2 ^ 50 \<and>
         \<bar>channel_phase s - channel_phase p / 100\<bar> \<le> 1 / 2 ^ 50 \<and>
         \<bar>in_gain s - 1 / (1 + delay_gain p / 100)\<bar> \<le> 1 / 2 ^ 50 \<and>
         \<bar>delay_gain s -
            (delay_gain p / 100) / (1 + delay_gain p / 100) * (1 - \<bar>feedback_gain p / 100\<bar>)\<bar>
           \<le> 1 / 2 ^ 50"
proof -
  note g = start_gains [OF assms(2)]
  have m: "0 \<le> delay_gain p" "delay_gain p \<le> 100"
    and f: "\<bar>feedback_gain p\<bar> \<le> 100"
    and c: "\<bar>channel_phase p\<bar> \<le> 100"
    using assms(1) by (simp_all add: params_in_range_def abs_le_iff)
  have "\<bar>fdiv (feedback_gain p) 100 - feedback_gain p / 100\<bar> \<le> 1 / 2 ^ 53"
    using f by (rule percent_error)
  then have 1: "\<bar>feedback_gain s - feedback_gain p / 100\<bar> \<le> 1 / 2 ^ 50"
    unfolding g by simp
  have "\<bar>fdiv (channel_phase p) 100 - channel_phase p / 100\<bar> \<le> 1 / 2 ^ 53"
    using c by (rule percent_error)
  then have 2: "\<bar>channel_phase s - channel_phase p / 100\<bar> \<le> 1 / 2 ^ 50"
    unfolding g by simp
  have 3: "\<bar>in_gain s - 1 / (1 + delay_gain p / 100)\<bar> \<le> 1 / 2 ^ 50"
    unfolding g using m f by (rule gain_errors)
  have 4: "\<bar>delay_gain s -
      (delay_gain p / 100) / (1 + delay_gain p / 100) * (1 - \<bar>feedback_gain p / 100\<bar>)\<bar>
        \<le> 1 / 2 ^ 50"
    unfolding g using m f by (rule gain_errors)
  show ?thesis
    using g 1 2 3 4 by (intro conjI)
qed

theorem start_gain_balance_witness:
  "params_in_range (getopts_defaults\<lparr>feedback_gain := 50\<rparr>) \<and>
   feedback_gain (getopts_defaults\<lparr>feedback_gain := 50\<rparr>) = 50 \<and>
   delay_gain (getopts_defaults\<lparr>feedback_gain := 50\<rparr>) = 71 \<and>
   (\<exists>s. sox_flanger_start flat_wave (getopts_defaults\<lparr>feedback_gain := 50\<rparr>) 2 44100 =
          Inr (SOX_SUCCESS, s) \<and>
        in_gain s = fdiv 1 (fl (171 / 100)) \<and>
        delay_gain s = fmul (fdiv (fl (71 / 100)) (fl (171 / 100))) (fsub 1 (fl (1 / 2))) \<and>
        feedback_gain s = 1 / 2 \<and> channel_phase s = 1 / 4 \<and>
        \<bar>in_gain s - 1 / (171 / 100)\<bar> \<le> 1 / 2 ^ 50 \<and>
        \<bar>delay_gain s - (71 / 100) / (171 / 100) * (1 - 1 / 2)\<bar> \<le> 1 / 2 ^ 50)"
proof -
  let ?p = "getopts_defaults\<lparr>feedback_gain := 50\<rparr>"
  have p: "params_in_range ?p"
    by (simp add: params_in_range_def getopts_defaults_def fl_eval)
  obtain s where s: "sox_flanger_start flat_wave ?p 2 44100 = Inr (SOX_SUCCESS, s)"
    by (simp add: start_eval)
  have v: "feedback_gain ?p = 50" "delay_gain ?p = 71" "channel_phase ?p = 25"
    by (simp_all add: getopts_defaults_def)
  note b = start_gain_balance [OF p s, unfolded v]
  have "in_gain s = fdiv 1 (fl (171 / 100))"
    using b by (simp add: fl_eval)
  moreover have "delay_gain s = fmul (fdiv (fl (71 / 100)) (fl (171 / 100))) (fsub 1 (fl (1 / 2)))"
    using b by (simp add: fl_eval)
  moreover have "feedback_gain s = 1 / 2" "channel_phase s = 1 / 4"
    using b by (simp_all add: fl_eval)
  moreover have "\<bar>in_gain s - 1 / (1 + 71 / 100)\<bar> \<le> 1 / 2 ^ 50"
    using b by blast
  then have "\<bar>in_gain s - 1 / (171 / 100)\<bar> \<le> 1 / 2 ^ 50"
    by simp
  moreover have "\<bar>delay_gain s - 71 / 100 / (1 + 71 / 100) * (1 - \<bar>50 / 100\<bar>)\<bar> \<le> 1 / 2 ^ 50"
    using b by blast
  then have "\<bar>delay_gain s - (71 / 100) / (171 / 100) * (1 - 1 / 2)\<bar> \<le> 1 / 2 ^ 50"
    by simp
  ultimately show ?thesis
    using p s v by blast
qed

text \<open>
  C8, as the claim has it, fails: a delay of 0 and a depth of 0 are in range, the delay
  in samples is then 0 and the buffers have length 2.
\<close>

theorem delay_buf_length_3_counterexample:
  "params_in_range (getopts_defaults\<lparr>delay_depth := 0\<rparr>) \<and>
   map_sum id (map_prod id delay_buf_length)
     (sox_flanger_start flat_wave (getopts_defaults\<lparr>delay_depth := 0\<rparr>) 2 44100) =
       Inr (SOX_SUCCESS, 2)"
  by (simp add: params_in_range_def start_eval)

text \<open>
  C8, amended: for every configuration in range and every sample rate, after a
  successful start the length of the delay buffers is at least 2.
\<close>

theorem start_delay_buf_length_ge_2:
  assumes "params_in_range p"
    and "sox_flanger_start gen p channels rate = Inr (SOX_SUCCESS, s)"
  shows "2 \<le> delay_buf_length s"
  using start_delay_buf_length_eq [OF assms] by simp

theorem start_delay_buf_length_ge_2_witness:
  "params_in_range (getopts_defaults\<lparr>delay_depth := 0\<rparr>) \<and>
   (\<exists>s. sox_flanger_start flat_wave (getopts_defaults\<lparr>delay_depth := 0\<rparr>) 2 44100 =
          Inr (SOX_SUCCESS, s) \<and> 2 \<le> delay_buf_length s)"
proof -
  let ?p = "getopts_defaults\<lparr>delay_depth := 0\<rparr>"
  have p: "params_in_range ?p"
    by (simp add: params_in_range_def getopts_defaults_def fl_eval)
  obtain s where s: "sox_flanger_start flat_wave ?p 2 44100 = Inr (SOX_SUCCESS, s)"
    by (simp add: start_eval)
  show ?thesis
    using p s start_delay_buf_length_ge_2 [OF p s] by blast
qed

text \<open>
  C9: with more than \<^verbatim>\<open>MAX_CHANNELS\<close> channels start returns \<^verbatim>\<open>SOX_EOF\<close> and leaves the
  private data as it was: no gain is scaled, no buffer and no table is allocated.
\<close>

theorem start_channel_limit:
  assumes "MAX_CHANNELS < channels"
  shows "sox_flanger_start gen f channels rate = Inr (SOX_EOF, f)"
  using assms by (simp add: sox_flanger_start_def)

theorem start_channel_limit_witness:
  "MAX_CHANNELS < 5 \<and>
   sox_flanger_start flat_wave getopts_defaults 5 44100 = Inr (SOX_EOF, getopts_defaults) \<and>
   delay_bufs getopts_defaults = [] \<and> lfo getopts_defaults = []"
proof -
  have c: "MAX_CHANNELS < 5"
    by (simp add: MAX_CHANNELS_def)
  show ?thesis
    using c start_channel_limit [OF c, of flat_wave getopts_defaults 44100]
    by (simp add: getopts_defaults_def)
qed

section \<open>Properties of flow\<close>

subsection \<open>What a call that returns has done\<close>

lemma same_config_refl: "same_config f f"
  by (simp add: same_config_def)

lemma same_config_trans:
  assumes "same_config f g" and "same_config g h"
  shows "same_config f h"
  using assms by (simp add: same_config_def)

lemma same_config_fields:
  assumes "same_config f f'"
  shows "delay_min f' = delay_min f" "delay_depth f' = delay_depth f"
    "feedback_gain f' = feedback_gain f" "delay_gain f' = delay_gain f"
    "in_gain f' = in_gain f" "speed f' = speed f" "wave_shape f' = wave_shape f"
    "channel_phase f' = channel_phase f" "interpolation f' = interpolation f"
    "delay_buf_length f' = delay_buf_length f" "lfo_length f' = lfo_length f"
    "lfo f' = lfo f"
  using assms by (simp_all add: same_config_def)

lemma flow_channel_InrD:
  assumes "flow_channel c st = Inr st'"
  shows "\<exists>x rest v delayed.
           ibuf st = x # rest \<and>
           c < length (delay_bufs (priv st)) \<and>
           st' = st\<lparr>priv := (priv st)
                      \<lparr>delay_bufs := (delay_bufs (priv st))
                         [c := (delay_bufs (priv st) ! c)[delay_buf_pos (priv st) := v]],
                       delay_last := (delay_last (priv st))[c := delayed]\<rparr>,
                    clips := snd (SOX_ROUND_CLIP_COUNT
                      (fadd (fmul (real_of_int x) (in_gain (priv st))) (fmul delayed (delay_gain (priv st))))
                      (clips st)),
                    ibuf := rest,
                    obuf := obuf st @ [fst (SOX_ROUND_CLIP_COUNT
                      (fadd (fmul (real_of_int x) (in_gain (priv st))) (fmul delayed (delay_gain (priv st))))
                      (clips st))]\<rparr>"
proof (cases "ibuf st")
  case Nil
  then show ?thesis
    using assms by (auto simp: flow_channel_def Let_def and_then_Inr_iff)
next
  case (Cons x rest)
  then show ?thesis
    using assms
    by (auto simp: flow_channel_def Let_def and_then_Inr_iff index_def split: if_splits)
qed

lemma flow_channel_config:
  assumes "flow_channel c st = Inr st'"
  shows "same_config (priv st) (priv st')"
    and "delay_buf_pos (priv st') = delay_buf_pos (priv st)"
    and "lfo_pos (priv st') = lfo_pos (priv st)"
proof -
  obtain bufs last where p: "priv st' = (priv st)\<lparr>delay_bufs := bufs, delay_last := last\<rparr>"
    using flow_channel_InrD [OF assms] by auto
  show "same_config (priv st) (priv st')"
    unfolding p by (simp add: same_config_def)
  show "delay_buf_pos (priv st') = delay_buf_pos (priv st)"
    and "lfo_pos (priv st') = lfo_pos (priv st)"
    unfolding p by simp_all
qed

lemma flow_channel_io:
  assumes "flow_channel c st = Inr st'"
  shows "ibuf st \<noteq> []" and "ibuf st' = tl (ibuf st)"
    and "length (obuf st') = Suc (length (obuf st))"
  using flow_channel_InrD [OF assms] by auto

lemma flow_channels_InrD:
  assumes "flow_channels cs st = Inr st'"
  shows "same_config (priv st) (priv st') \<and>
         delay_buf_pos (priv st') = delay_buf_pos (priv st) \<and>
         lfo_pos (priv st') = lfo_pos (priv st) \<and>
         length cs \<le> length (ibuf st) \<and>
         ibuf st' = drop (length cs) (ibuf st) \<and>
         length (obuf st') = length (obuf st) + length cs"
  using assms
proof (induction cs arbitrary: st)
  case Nil
  then show ?case by (simp add: same_config_refl)
next
  case (Cons c cs)
  from Cons.prems obtain st1 where 1: "flow_channel c st = Inr st1"
    and 2: "flow_channels cs st1 = Inr st'"
    by (auto simp: and_then_Inr_iff)
  note ih = Cons.IH [OF 2]
  note cf = flow_channel_config [OF 1]
  note io = flow_channel_io [OF 1]
  have "same_config (priv st) (priv st')"
    using cf(1) ih by (blast intro: same_config_trans)
  moreover have "length (c # cs) \<le> length (ibuf st)"
    using io ih by (cases "ibuf st") auto
  moreover have "ibuf st' = drop (length (c # cs)) (ibuf st)"
    using io ih by (cases "ibuf st") auto
  ultimately show ?case
    using cf io ih by simp
qed

lemma flow_frame_InrD:
  assumes "flow_frame channels st = Inr st'"
  shows "same_config (priv st) (priv st') \<and>
         nat channels \<le> length (ibuf st) \<and>
         ibuf st' = drop (nat channels) (ibuf st) \<and>
         length (obuf st') = length (obuf st) + nat channels"
proof -
  let ?f = "priv st"
  obtain pos st1 lp where
    1: "flow_channels [0..<nat channels] (st\<lparr>priv := ?f\<lparr>delay_buf_pos := pos\<rparr>\<rparr>) = Inr st1"
    and 2: "st' = st1\<lparr>priv := (priv st1)\<lparr>lfo_pos := lp\<rparr>\<rparr>"
    using assms by (auto simp: flow_frame_def Let_def and_then_Inr_iff)
  note d = flow_channels_InrD [OF 1]
  have a: "same_config ?f (?f\<lparr>delay_buf_pos := pos\<rparr>)"
    by (simp add: same_config_def)
  have b: "same_config (priv st1) (priv st')"
    unfolding 2 by (simp add: same_config_def)
  have "same_config ?f (priv st')"
    using a d b by (auto intro: same_config_trans)
  then show ?thesis
    using d by (simp add: 2)
qed

lemma flow_loop_InrD:
  assumes "flow_loop len channels st = Inr st'"
  shows "same_config (priv st) (priv st') \<and>
         len * nat channels \<le> length (ibuf st) \<and>
         ibuf st' = drop (len * nat channels) (ibuf st) \<and>
         length (obuf st') = length (obuf st) + len * nat channels"
  using assms
proof (induction len arbitrary: st)
  case 0
  then show ?case by (simp add: same_config_refl)
next
  case (Suc len)
  from Suc.prems obtain st1 where 1: "flow_frame channels st = Inr st1"
    and 2: "flow_loop len channels st1 = Inr st'"
    by (auto simp: and_then_Inr_iff)
  note fr = flow_frame_InrD [OF 1]
  note ih = Suc.IH [OF 2]
  have "same_config (priv st) (priv st')"
    using fr ih by (blast intro: same_config_trans)
  moreover have "Suc len * nat channels \<le> length (ibuf st)"
    using fr ih by (simp, linarith)
  moreover have "ibuf st' = drop (Suc len * nat channels) (ibuf st)"
    using fr ih by (simp add: add.commute)
  moreover have "length (obuf st') = length (obuf st) + Suc len * nat channels"
    using fr ih by simp
  ultimately show ?case by blast
qed

lemma flow_unfold:
  assumes "channels \<noteq> 0"
  shows "sox_flanger_flow f channels clips0 ibuf0 osamp =
     and_then (flow_loop (min (length ibuf0) osamp div nat (channels mod 2 ^ 32)) channels
                 \<lparr>priv = f, clips = clips0, ibuf = ibuf0, obuf = []\<rparr>)
       (\<lambda>st. Inr (SOX_SUCCESS, priv st, clips st, obuf st,
          size_wrap (min (length ibuf0) osamp div nat (channels mod 2 ^ 32) *
            nat (channels mod 2 ^ 32)),
          size_wrap (min (length ibuf0) osamp div nat (channels mod 2 ^ 32) *
            nat (channels mod 2 ^ 32))))"
proof -
  have "(if length ibuf0 > osamp then osamp else length ibuf0) = min (length ibuf0) osamp"
    by simp
  then show ?thesis
    using assms unfolding sox_flanger_flow_def Let_def by simp
qed

lemma flow_InrD:
  assumes "sox_flanger_flow f channels clips0 ibuf0 osamp = Inr (st, f', clips', ob, i', o')"
  shows "st = SOX_SUCCESS \<and> same_config f f' \<and> channels \<noteq> 0 \<and>
         i' = size_wrap (min (length ibuf0) osamp div nat (channels mod 2 ^ 32) *
                nat (channels mod 2 ^ 32)) \<and>
         o' = i' \<and>
         length ob = min (length ibuf0) osamp div nat (channels mod 2 ^ 32) * nat channels \<and>
         (\<exists>st'. flow_loop (min (length ibuf0) osamp div nat (channels mod 2 ^ 32)) channels
                  \<lparr>priv = f, clips = clips0, ibuf = ibuf0, obuf = []\<rparr> = Inr st' \<and>
                f' = priv st' \<and> clips' = clips st' \<and> ob = obuf st')"
proof -
  let ?len = "min (length ibuf0) osamp div nat (channels mod 2 ^ 32)"
  have c: "channels \<noteq> 0"
    using assms by (auto simp: sox_flanger_flow_def)
  obtain st' where 1: "flow_loop ?len channels \<lparr>priv = f, clips = clips0, ibuf = ibuf0, obuf = []\<rparr> = Inr st'"
    and 2: "st = SOX_SUCCESS" "f' = priv st'" "clips' = clips st'" "ob = obuf st'"
      "i' = size_wrap (?len * nat (channels mod 2 ^ 32))" "o' = i'"
    using assms unfolding flow_unfold [OF c] and_then_Inr_iff by auto
  note d = flow_loop_InrD [OF 1]
  show ?thesis
    using c 1 2 d by simp
qed

lemma nat_channels_unsigned:
  assumes "0 < channels" and "channels \<le> MAX_CHANNELS"
  shows "nat (channels mod 2 ^ 32) = nat channels"
proof -
  have "channels mod 2 ^ 32 = channels"
    using assms by (simp add: MAX_CHANNELS_def)
  then show ?thesis by simp
qed

lemma whole_frames_no_wrap:
  assumes "length ibuf0 < 2 ^ 32 \<or> osamp < 2 ^ 32"
  shows "size_wrap (min (length ibuf0) osamp div ch * ch) = min (length ibuf0) osamp div ch * ch"
proof -
  have "min (length ibuf0) osamp div ch * ch \<le> min (length ibuf0) osamp"
    by (rule div_times_less_eq_dividend)
  also have "\<dots> < 2 ^ 32"
    using assms by auto
  finally show ?thesis
    by (simp add: size_wrap_def)
qed


subsection \<open>Well-formed private data: flow returns\<close>

lemma size_wrap_less: "size_wrap n < 2 ^ 32"
  by (simp add: size_wrap_def)

lemma lfo_offset_total:
  assumes "0 \<le> channel_phase f" and "channel_phase f \<le> 1"
  shows "\<exists>k. lfo_offset f c = Inr k"
proof -
  let ?w = "real (size_wrap (c * lfo_length f))"
  have "size_wrap (c * lfo_length f) \<le> 2 ^ 32 - 1"
    using size_wrap_less [of "c * lfo_length f"] by simp
  then have "?w \<le> real (2 ^ 32 - 1)"
    by (rule of_nat_mono)
  then have w: "0 \<le> ?w" "?w \<le> 2 ^ 32 - 1"
    by simp_all
  have "?w * channel_phase f \<le> ?w * 1"
    using w(1) assms(2) by (rule mult_left_mono [rotated])
  then have "?w * channel_phase f \<le> real_of_int 4294967295"
    using w(2) by simp
  then have "fl (?w * channel_phase f) \<le> fl (real_of_int 4294967295)"
    by (rule fl_mono)
  then have "fmul ?w (channel_phase f) + 1 / 2 \<le> real_of_int 8589934591 / 2"
    using fl_of_int [of 4294967295] by (simp add: fmul_def)
  then have "fl (fmul ?w (channel_phase f) + 1 / 2) \<le> fl (real_of_int 8589934591 / 2)"
    by (rule fl_mono)
  then have hi: "fadd (fmul ?w (channel_phase f)) (1 / 2) < 2 ^ 32"
    using fl_half_int [of 8589934591] by (simp add: fadd_def)
  have "0 \<le> fmul ?w (channel_phase f)"
    unfolding fmul_def using w(1) assms(1) by (intro fl_nonneg) simp
  then have "0 \<le> fadd (fmul ?w (channel_phase f)) (1 / 2)"
    unfolding fadd_def by (intro fl_nonneg) simp
  then show ?thesis
    using hi by (simp add: lfo_offset_def to_size_def)
qed

lemma lfo_index_total:
  assumes "0 \<le> channel_phase f" and "channel_phase f \<le> 1" and "0 < lfo_length f"
  shows "\<exists>i. lfo_index f c = Inr i \<and> i < lfo_length f"
  using lfo_offset_total [OF assms(1,2), of c] assms(3)
  by (auto simp: lfo_index_def and_then_def size_mod_def)

lemma to_size_trunc_total:
  assumes "0 \<le> d" and "d < 2 ^ 32"
  shows "\<exists>k. to_size (real_of_int (trunc d)) = Inr k"
proof -
  have "0 \<le> \<lfloor>d\<rfloor>"
    using assms(1) by simp
  then have "- 1 < real_of_int \<lfloor>d\<rfloor>"
    by linarith
  moreover have "real_of_int \<lfloor>d\<rfloor> < 2 ^ 32"
    using assms(2) of_int_floor_le [of d] by linarith
  ultimately show ?thesis
    using assms(1) unfolding to_size_def trunc_def by auto
qed

lemma tap_total:
  assumes "0 < delay_buf_length f" and "length buf = delay_buf_length f"
  shows "\<exists>v. tap f buf k = Inr v"
  using assms by (simp add: tap_def size_mod_def and_then_def index_def)

lemma interpolate_total:
  assumes "0 < delay_buf_length f" and "length buf = delay_buf_length f"
  shows "\<exists>v. interpolate f buf k fr = Inr v"
proof -
  obtain t0 where t0: "tap f buf k = Inr t0"
    using tap_total [OF assms] by blast
  obtain t1 where t1: "tap f buf (size_wrap (k + 1)) = Inr t1"
    using tap_total [OF assms] by blast
  obtain t2 where t2: "tap f buf (size_wrap (size_wrap (k + 1) + 1)) = Inr t2"
    using tap_total [OF assms] by blast
  show ?thesis
    unfolding interpolate_def t0 t1 t2 by (simp add: and_then_def Let_def)
qed

lemma flow_channel_total:
  assumes ok: "flanger_ok (priv st) channels"
    and c: "c < nat channels"
    and i: "ibuf st \<noteq> []"
    and pos: "delay_buf_pos (priv st) < delay_buf_length (priv st)"
  shows "\<exists>st'. flow_channel c st = Inr st'"
proof -
  let ?f = "priv st"
  obtain li where li: "lfo_index ?f c = Inr li" "li < lfo_length ?f"
    using lfo_index_total [of ?f c] ok by (auto simp: flanger_ok_def)
  have len: "length (lfo ?f) = lfo_length ?f"
    using ok by (simp add: flanger_ok_def)
  then have d: "index (lfo ?f) li = Inr (lfo ?f ! li)" "lfo ?f ! li \<in> set (lfo ?f)"
    using li(2) by (simp_all add: index_def)
  then have "0 \<le> lfo ?f ! li \<and> lfo ?f ! li < 2 ^ 32"
    using ok unfolding flanger_ok_def by blast
  then obtain k where k: "to_size (real_of_int (trunc (lfo ?f ! li))) = Inr k"
    using to_size_trunc_total by blast
  obtain x rest where x: "ibuf st = x # rest"
    using i by (cases "ibuf st") auto
  have "nat channels \<le> nat MAX_CHANNELS"
    using ok by (simp add: flanger_ok_def nat_mono)
  then have last: "index (delay_last ?f) c = Inr (delay_last ?f ! c)"
    using ok c by (simp add: index_def flanger_ok_def)
  have buf: "index (delay_bufs ?f) c = Inr (delay_bufs ?f ! c)"
    using ok c by (simp add: index_def flanger_ok_def)
  have "delay_bufs ?f ! c \<in> set (delay_bufs ?f)"
    using ok c by (simp add: flanger_ok_def)
  then have bl: "length (delay_bufs ?f ! c) = delay_buf_length ?f"
    using ok unfolding flanger_ok_def by blast
  obtain v where v: "interpolate ?f
      ((delay_bufs ?f ! c)[delay_buf_pos ?f :=
         fadd (real_of_int x) (fmul (delay_last ?f ! c) (feedback_gain ?f))])
      k (lfo ?f ! li - real_of_int (trunc (lfo ?f ! li))) = Inr v"
    using interpolate_total [of ?f] bl pos by (metis length_list_update less_nat_zero_code not_gr_zero)
  show ?thesis
    using pos by (simp add: flow_channel_def Let_def li d k x last buf bl v and_then_def)
qed

lemma flow_channel_ok:
  assumes "flow_channel c st = Inr st'" and "flanger_ok (priv st) channels"
  shows "flanger_ok (priv st') channels"
proof -
  let ?f = "priv st"
  obtain v delayed where c: "c < length (delay_bufs ?f)"
    and p: "priv st' = ?f\<lparr>delay_bufs := (delay_bufs ?f)[c := (delay_bufs ?f ! c)[delay_buf_pos ?f := v]],
                            delay_last := (delay_last ?f)[c := delayed]\<rparr>"
    using flow_channel_InrD [OF assms(1)] by auto
  have "\<forall>b \<in> set ((delay_bufs ?f)[c := (delay_bufs ?f ! c)[delay_buf_pos ?f := v]]).
      length b = delay_buf_length ?f"
  proof
    fix b
    assume "b \<in> set ((delay_bufs ?f)[c := (delay_bufs ?f ! c)[delay_buf_pos ?f := v]])"
    then have "b = (delay_bufs ?f ! c)[delay_buf_pos ?f := v] \<or> b \<in> set (delay_bufs ?f)"
      using set_update_subset_insert by fastforce
    moreover have "delay_bufs ?f ! c \<in> set (delay_bufs ?f)"
      using c by simp
    ultimately show "length b = delay_buf_length ?f"
      using assms(2) unfolding flanger_ok_def by auto
  qed
  then show ?thesis
    using assms(2) unfolding flanger_ok_def p by simp
qed

lemma flow_channels_total:
  assumes "flanger_ok (priv st) channels"
    and "\<forall>c \<in> set cs. c < nat channels"
    and "length cs \<le> length (ibuf st)"
    and "delay_buf_pos (priv st) < delay_buf_length (priv st)"
  shows "\<exists>st'. flow_channels cs st = Inr st' \<and> flanger_ok (priv st') channels"
  using assms
proof (induction cs arbitrary: st)
  case Nil
  then show ?case by simp
next
  case (Cons c cs)
  have "ibuf st \<noteq> []"
    using Cons.prems(3) by auto
  then obtain st1 where 1: "flow_channel c st = Inr st1"
    using flow_channel_total [OF Cons.prems(1) _ _ Cons.prems(4)] Cons.prems(2) by auto
  note ok1 = flow_channel_ok [OF 1 Cons.prems(1)]
  note cf = flow_channel_config [OF 1]
  note io = flow_channel_io [OF 1]
  have "length cs \<le> length (ibuf st1)"
    using io Cons.prems(3) by simp
  moreover have "delay_buf_pos (priv st1) < delay_buf_length (priv st1)"
    using cf Cons.prems(4) by (simp add: same_config_fields)
  ultimately obtain st' where "flow_channels cs st1 = Inr st'" "flanger_ok (priv st') channels"
    using Cons.IH [OF ok1] Cons.prems(2) by auto
  then show ?case
    using 1 by (simp add: and_then_def)
qed

lemma flanger_ok_update:
  "flanger_ok (f\<lparr>delay_buf_pos := pos\<rparr>) channels = flanger_ok f channels"
  "flanger_ok (f\<lparr>lfo_pos := lp\<rparr>) channels = flanger_ok f channels"
  by (simp_all add: flanger_ok_def)

lemma flow_frame_total:
  assumes "flanger_ok (priv st) channels" and "nat channels \<le> length (ibuf st)"
  shows "\<exists>st'. flow_frame channels st = Inr st' \<and> flanger_ok (priv st') channels"
proof -
  let ?f = "priv st"
  let ?pos = "size_wrap (size_wrap (delay_buf_pos ?f + delay_buf_length ?f) + (2 ^ 32 - 1))
    mod delay_buf_length ?f"
  let ?st0 = "st\<lparr>priv := ?f\<lparr>delay_buf_pos := ?pos\<rparr>\<rparr>"
  have l: "0 < delay_buf_length ?f" "0 < lfo_length ?f"
    using assms(1) by (simp_all add: flanger_ok_def)
  have "\<exists>st'. flow_channels [0..<nat channels] ?st0 = Inr st' \<and> flanger_ok (priv st') channels"
    using assms l by (intro flow_channels_total) (simp_all add: flanger_ok_update)
  then obtain st1 where 1: "flow_channels [0..<nat channels] ?st0 = Inr st1"
    and ok1: "flanger_ok (priv st1) channels"
    by blast
  have "same_config (priv ?st0) (priv st1)"
    using flow_channels_InrD [OF 1] by blast
  then have "lfo_length (priv st1) = lfo_length (priv ?st0)"
    by (rule same_config_fields)
  then have "lfo_length (priv st1) = lfo_length ?f"
    by simp
  then show ?thesis
    using l 1 ok1 by (simp add: flow_frame_def Let_def size_mod_def and_then_def flanger_ok_update)
qed

lemma flow_loop_total:
  assumes "flanger_ok (priv st) channels" and "len * nat channels \<le> length (ibuf st)"
  shows "\<exists>st'. flow_loop len channels st = Inr st' \<and> flanger_ok (priv st') channels"
  using assms
proof (induction len arbitrary: st)
  case 0
  then show ?case by simp
next
  case (Suc len)
  have "nat channels \<le> length (ibuf st)"
    using Suc.prems(2) by simp
  then obtain st1 where 1: "flow_frame channels st = Inr st1"
    and ok1: "flanger_ok (priv st1) channels"
    using flow_frame_total [OF Suc.prems(1)] by blast
  have "len * nat channels \<le> length (ibuf st1)"
    using flow_frame_InrD [OF 1] Suc.prems(2) by simp
  then obtain st' where "flow_loop len channels st1 = Inr st'" "flanger_ok (priv st') channels"
    using Suc.IH [OF ok1] by blast
  then show ?case
    using 1 by (simp add: and_then_def)
qed

lemma flow_total:
  assumes "flanger_ok f channels" and "0 < channels"
  shows "\<exists>f' clips' ob n.
           sox_flanger_flow f channels clips0 ibuf0 osamp = Inr (SOX_SUCCESS, f', clips', ob, n, n) \<and>
           flanger_ok f' channels"
proof -
  have u: "nat (channels mod 2 ^ 32) = nat channels"
    using assms by (intro nat_channels_unsigned) (simp_all add: flanger_ok_def)
  let ?len = "min (length ibuf0) osamp div nat channels"
  have "?len * nat channels \<le> min (length ibuf0) osamp"
    by (rule div_times_less_eq_dividend)
  then have "?len * nat channels \<le> length (ibuf \<lparr>priv = f, clips = clips0, ibuf = ibuf0, obuf = []\<rparr>)"
    by simp
  then obtain st' where "flow_loop ?len channels \<lparr>priv = f, clips = clips0, ibuf = ibuf0, obuf = []\<rparr> = Inr st'"
    "flanger_ok (priv st') channels"
    using flow_loop_total [of "\<lparr>priv = f, clips = clips0, ibuf = ibuf0, obuf = []\<rparr>" channels ?len] assms(1)
    by auto
  moreover have "channels \<noteq> 0"
    using assms(2) by simp
  ultimately show ?thesis
    unfolding flow_unfold [OF \<open>channels \<noteq> 0\<close>] u by (simp add: and_then_def)
qed


text \<open>
  Start leaves well-formed private data when the parameters are in range, the table
  generator keeps to its interval and the sample rate is at least the speed, so that the
  table has an entry.
\<close>

lemma start_SUCCESS_D:
  assumes "sox_flanger_start gen f channels rate = Inr (SOX_SUCCESS, s)"
  obtains n0 l lo where
    "to_size (fadd (fmul (fdiv (fadd (delay_min f) (delay_depth f)) 1000) rate) (1 / 2)) = Inr n0"
    "to_size (fdiv rate (speed f)) = Inr l"
    "to_size (fadd (fmul (fdiv (delay_min f) 1000) rate) (1 / 2)) = Inr lo"
    "channels \<le> MAX_CHANNELS"
    "delay_buf_length s = size_wrap (size_wrap (n0 + 1) + 1)"
    "delay_bufs s = replicate (nat channels) (replicate (size_wrap (size_wrap (n0 + 1) + 1)) 0)"
    "lfo_length s = l"
    "lfo s = gen (wave_shape f) l (real lo)
               (real (size_wrap (size_wrap (size_wrap (n0 + 1) + 1) + (2 ^ 32 - 2))))
               (fmul 3 M_PI_2)"
    "delay_last s = delay_last f"
    "channel_phase s = fdiv (channel_phase f) 100"
  using assms unfolding sox_flanger_start_def Let_def and_then_def
  by (auto split: if_splits sum.splits)

lemma start_ok:
  assumes p: "params_in_range p"
    and g: "wave_gen_ok gen"
    and s: "sox_flanger_start gen p channels rate = Inr (SOX_SUCCESS, s)"
    and dl: "length (delay_last p) = nat MAX_CHANNELS"
    and r: "speed p \<le> rate"
  shows "flanger_ok s channels"
proof -
  let ?a = "fadd (delay_min p) (delay_depth p)"
  let ?x = "fadd (fmul (fdiv ?a 1000) rate) (1 / 2)"
  let ?y = "fadd (fmul (fdiv (delay_min p) 1000) rate) (1 / 2)"
  obtain n0 l lo where n0: "to_size ?x = Inr n0"
    and l: "to_size (fdiv rate (speed p)) = Inr l"
    and lo: "to_size ?y = Inr lo"
    and ch: "channels \<le> MAX_CHANNELS"
    and s_eq: "delay_buf_length s = size_wrap (size_wrap (n0 + 1) + 1)"
      "delay_bufs s = replicate (nat channels) (replicate (size_wrap (size_wrap (n0 + 1) + 1)) 0)"
      "lfo_length s = l"
      "lfo s = gen (wave_shape p) l (real lo)
               (real (size_wrap (size_wrap (size_wrap (n0 + 1) + 1) + (2 ^ 32 - 2))))
               (fmul 3 M_PI_2)"
      "delay_last s = delay_last p"
      "channel_phase s = fdiv (channel_phase p) 100"
    using start_SUCCESS_D [OF s] by metis
  have sp: "0 < speed p"
    using p by (rule speed_pos)
  have rate: "0 < rate"
    using sp r by linarith
  have "1 \<le> rate / speed p"
    using sp r by (simp add: pos_le_divide_eq)
  then have "1 \<le> fdiv rate (speed p)"
    unfolding fdiv_def by (rule fl_ge_1)
  then have "1 \<le> \<lfloor>fdiv rate (speed p)\<rfloor>"
    by (simp add: le_floor_iff)
  then have l_pos: "0 < l"
    using l by (simp add: to_size_Inr_iff)
  have "?x \<le> 2684354561 / 2"
    using p delay_sum_bounds [OF p] start_rate_bound [OF p l]
    by (rule start_delay_samples_bound)
  then have "\<lfloor>?x\<rfloor> < 1342177281"
    by (simp add: floor_less_iff)
  moreover have n0_eq: "n0 = nat \<lfloor>?x\<rfloor>"
    using n0 unfolding to_size_Inr_iff by blast
  ultimately have n0_less: "n0 < 1342177281"
    by linarith
  then have w: "size_wrap (size_wrap (n0 + 1) + 1) = n0 + 2"
    "size_wrap (n0 + 2 + (2 ^ 32 - 2)) = n0"
    by (simp_all add: size_wrap_def)
  have lo_eq: "lo = nat \<lfloor>?y\<rfloor>"
    using lo unfolding to_size_Inr_iff by blast
  have "fl (delay_min p) \<le> fl (delay_min p + delay_depth p)"
    using p by (intro fl_mono) (simp add: params_in_range_def)
  then have "delay_min p \<le> ?a"
    using p by (simp add: params_in_range_def fadd_def)
  then have "delay_min p / 1000 \<le> ?a / 1000"
    by simp
  then have "fdiv (delay_min p) 1000 \<le> fdiv ?a 1000"
    unfolding fdiv_def by (rule fl_mono)
  then have "fdiv (delay_min p) 1000 * rate \<le> fdiv ?a 1000 * rate"
    using rate by (intro mult_right_mono) simp_all
  then have "fmul (fdiv (delay_min p) 1000) rate \<le> fmul (fdiv ?a 1000) rate"
    unfolding fmul_def by (rule fl_mono)
  then have "fmul (fdiv (delay_min p) 1000) rate + 1 / 2 \<le> fmul (fdiv ?a 1000) rate + 1 / 2"
    by simp
  then have "?y \<le> ?x"
    unfolding fadd_def by (rule fl_mono)
  then have "\<lfloor>?y\<rfloor> \<le> \<lfloor>?x\<rfloor>"
    by (rule floor_mono)
  then have "lo \<le> n0"
    unfolding lo_eq n0_eq by (rule nat_mono)
  then have lo_hi: "real lo \<le> real n0"
    by simp
  let ?tbl = "gen (wave_shape p) l (real lo) (real n0) (fmul 3 M_PI_2)"
  have tl: "length ?tbl = l"
    using g unfolding wave_gen_ok_def by blast
  have tv: "\<forall>d \<in> set ?tbl. real lo \<le> d \<and> d \<le> real n0"
    using g lo_hi unfolding wave_gen_ok_def by blast
  have tv': "\<forall>d \<in> set ?tbl. 0 \<le> d \<and> d < 2 ^ 32"
  proof
    fix d
    assume "d \<in> set ?tbl"
    then have "real lo \<le> d" "d \<le> real n0"
      using tv by auto
    moreover have "real n0 < 1342177281"
      using n0_less by linarith
    moreover have "0 \<le> real lo"
      by simp
    ultimately show "0 \<le> d \<and> d < 2 ^ 32"
      by simp
  qed
  have c: "0 \<le> channel_phase p / 100" "channel_phase p / 100 \<le> 1"
    using p by (simp_all add: params_in_range_def)
  have cp: "0 \<le> fdiv (channel_phase p) 100" "fdiv (channel_phase p) 100 \<le> 1"
    unfolding fdiv_def using c by (intro fl_nonneg fl_le_1; simp)+
  show ?thesis
    unfolding flanger_ok_def s_eq w
    using ch dl l_pos tl tv' cp by simp
qed

lemma flat_wave_ok: "wave_gen_ok flat_wave"
  by (auto simp: wave_gen_ok_def flat_wave_def)

lemma reach_same_config:
  assumes "flow_reachable channels s0 s"
  shows "same_config s0 s"
  using assms
proof (induction rule: flow_reachable.induct)
  case reach_start
  show ?case by (rule same_config_refl)
next
  case (reach_flow s clips0 ibuf0 osamp st s' clips' ob i' o')
  have "same_config s s'"
    using flow_InrD [OF reach_flow.hyps(2)] by blast
  with reach_flow.IH show ?case
    by (rule same_config_trans)
qed

lemma reach_ok:
  assumes "flow_reachable channels s0 s" and "flanger_ok s0 channels" and "0 < channels"
  shows "flanger_ok s channels"
  using assms
proof (induction rule: flow_reachable.induct)
  case reach_start
  then show ?case by simp
next
  case (reach_flow s clips0 ibuf0 osamp st s' clips' ob i' o')
  have "flanger_ok s channels"
    using reach_flow.IH reach_flow.prems by blast
  then obtain f' c' b' n where
    "sox_flanger_flow s channels clips0 ibuf0 osamp = Inr (SOX_SUCCESS, f', c', b', n, n)"
    "flanger_ok f' channels"
    using flow_total [OF _ reach_flow.prems(2)] by blast
  then show ?case
    using reach_flow.hyps(2) by simp
qed

subsection \<open>Samples that pass through\<close>

lemma fl_sample:
  assumes "SOX_SAMPLE_MIN \<le> x" and "x \<le> SOX_SAMPLE_MAX"
  shows "fl (real_of_int x) = real_of_int x"
    and "fl (real_of_int x - 1 / 2) = real_of_int x - 1 / 2"
    and "fl (real_of_int x + 1 / 2) = real_of_int x + 1 / 2"
proof -
  have b: "- 2147483648 \<le> x" "x \<le> 2147483647"
    using assms by (simp_all add: SOX_SAMPLE_MIN_def SOX_SAMPLE_MAX_def)
  have "\<bar>x\<bar> < 9007199254740992" "\<bar>2 * x - 1\<bar> < 9007199254740992"
    "\<bar>2 * x + 1\<bar> < 9007199254740992"
    using b by linarith+
  then have a: "\<bar>x\<bar> < 2 ^ 53" "\<bar>2 * x - 1\<bar> < 2 ^ 53" "\<bar>2 * x + 1\<bar> < 2 ^ 53"
    by simp_all
  show "fl (real_of_int x) = real_of_int x"
    using a(1) by (rule fl_of_int)
  show "fl (real_of_int x - 1 / 2) = real_of_int x - 1 / 2"
    using fl_half_int [OF a(2)] by (simp add: field_simps)
  show "fl (real_of_int x + 1 / 2) = real_of_int x + 1 / 2"
    using fl_half_int [OF a(3)] by (simp add: field_simps)
qed

lemma round_clip_sample:
  assumes "SOX_SAMPLE_MIN \<le> x" and "x \<le> SOX_SAMPLE_MAX"
  shows "SOX_ROUND_CLIP_COUNT (real_of_int x) n = (x, n)"
proof (cases "x < 0")
  case True
  have "\<lceil>real_of_int x - 1 / 2\<rceil> = x"
    by (simp add: ceiling_eq_iff)
  moreover have "\<not> real_of_int x \<le> real_of_int SOX_SAMPLE_MIN - 1 / 2"
    using assms(1) by linarith
  ultimately show ?thesis
    using True by (simp add: SOX_ROUND_CLIP_COUNT_def trunc_def fsub_def fl_sample(2) [OF assms])
next
  case False
  have "\<lfloor>real_of_int x + 1 / 2\<rfloor> = x"
    by (simp add: floor_eq_iff)
  moreover have "\<not> real_of_int SOX_SAMPLE_MAX + 1 / 2 \<le> real_of_int x"
    using assms(2) by linarith
  ultimately show ?thesis
    using False by (simp add: SOX_ROUND_CLIP_COUNT_def trunc_def fadd_def fl_sample(3) [OF assms])
qed

lemma flow_channel_passthrough:
  assumes "flow_channel c st = Inr st'"
    and "in_gain (priv st) = 1" and "delay_gain (priv st) = 0"
    and "samples_ok (ibuf st)"
  shows "obuf st' = obuf st @ [hd (ibuf st)]" and "clips st' = clips st"
proof -
  obtain x rest delayed where i: "ibuf st = x # rest"
    and o: "obuf st' = obuf st @ [fst (SOX_ROUND_CLIP_COUNT
             (fadd (fmul (real_of_int x) (in_gain (priv st))) (fmul delayed (delay_gain (priv st))))
             (clips st))]"
    and k: "clips st' = snd (SOX_ROUND_CLIP_COUNT
             (fadd (fmul (real_of_int x) (in_gain (priv st))) (fmul delayed (delay_gain (priv st))))
             (clips st))"
    using flow_channel_InrD [OF assms(1)] by auto
  have x: "SOX_SAMPLE_MIN \<le> x" "x \<le> SOX_SAMPLE_MAX"
    using assms(4) i by (simp_all add: samples_ok_def)
  have "fadd (fmul (real_of_int x) 1) (fmul delayed 0) = real_of_int x"
    by (simp add: fadd_def fmul_def fl_sample(1) [OF x])
  moreover have "SOX_ROUND_CLIP_COUNT (real_of_int x) (clips st) = (x, clips st)"
    using x by (rule round_clip_sample)
  ultimately show "obuf st' = obuf st @ [hd (ibuf st)]" and "clips st' = clips st"
    using o k i assms(2,3) by simp_all
qed

lemma samples_ok_drop: "samples_ok xs \<Longrightarrow> samples_ok (drop n xs)"
  unfolding samples_ok_def by (auto dest: in_set_dropD)

lemma flow_channels_passthrough:
  assumes "flow_channels cs st = Inr st'"
    and "in_gain (priv st) = 1" and "delay_gain (priv st) = 0"
    and "samples_ok (ibuf st)"
  shows "obuf st' = obuf st @ take (length cs) (ibuf st) \<and> clips st' = clips st"
  using assms
proof (induction cs arbitrary: st)
  case Nil
  then show ?case by simp
next
  case (Cons c cs)
  from Cons.prems(1) obtain st1 where 1: "flow_channel c st = Inr st1"
    and 2: "flow_channels cs st1 = Inr st'"
    by (auto simp: and_then_Inr_iff)
  note cf = same_config_fields [OF flow_channel_config(1) [OF 1]]
  note io = flow_channel_io [OF 1]
  note pt = flow_channel_passthrough [OF 1 Cons.prems(2,3,4)]
  have ok1: "samples_ok (ibuf st1)"
    using io Cons.prems(4) samples_ok_drop [of "ibuf st" 1] by (simp add: drop_Suc)
  have ih: "obuf st' = obuf st1 @ take (length cs) (ibuf st1) \<and> clips st' = clips st1"
    using Cons.IH [OF 2 _ _ ok1] cf Cons.prems(2,3) by simp
  show ?case
    using ih pt io by (cases "ibuf st") simp_all
qed

lemma flow_frame_passthrough:
  assumes "flow_frame channels st = Inr st'"
    and "in_gain (priv st) = 1" and "delay_gain (priv st) = 0"
    and "samples_ok (ibuf st)"
  shows "obuf st' = obuf st @ take (nat channels) (ibuf st) \<and> clips st' = clips st"
proof -
  let ?f = "priv st"
  obtain pos st1 lp where
    1: "flow_channels [0..<nat channels] (st\<lparr>priv := ?f\<lparr>delay_buf_pos := pos\<rparr>\<rparr>) = Inr st1"
    and 2: "st' = st1\<lparr>priv := (priv st1)\<lparr>lfo_pos := lp\<rparr>\<rparr>"
    using assms(1) by (auto simp: flow_frame_def Let_def and_then_Inr_iff)
  show ?thesis
    using flow_channels_passthrough [OF 1] assms(2,3,4) by (simp add: 2)
qed

lemma flow_loop_passthrough:
  assumes "flow_loop len channels st = Inr st'"
    and "in_gain (priv st) = 1" and "delay_gain (priv st) = 0"
    and "samples_ok (ibuf st)"
  shows "obuf st' = obuf st @ take (len * nat channels) (ibuf st) \<and> clips st' = clips st"
  using assms
proof (induction len arbitrary: st)
  case 0
  then show ?case by simp
next
  case (Suc len)
  from Suc.prems(1) obtain st1 where 1: "flow_frame channels st = Inr st1"
    and 2: "flow_loop len channels st1 = Inr st'"
    by (auto simp: and_then_Inr_iff)
  note fr = flow_frame_InrD [OF 1]
  note cf = same_config_fields [of "priv st" "priv st1"]
  note pt = flow_frame_passthrough [OF 1 Suc.prems(2,3,4)]
  have ok1: "samples_ok (ibuf st1)"
    using fr Suc.prems(4) by (simp add: samples_ok_drop)
  have ih: "obuf st' = obuf st1 @ take (len * nat channels) (ibuf st1) \<and> clips st' = clips st1"
    using Suc.IH [OF 2 _ _ ok1] cf fr Suc.prems(2,3) by simp
  have "take (nat channels) (ibuf st) @ take (len * nat channels) (drop (nat channels) (ibuf st)) =
      take (Suc len * nat channels) (ibuf st)"
    by (simp add: take_add)
  then show ?case
    using ih pt fr by simp
qed

lemma flow_passthrough_lemma:
  assumes r: "sox_flanger_flow s channels clips0 ibuf0 osamp = Inr (st, s', clips', ob, i', o')"
    and g: "in_gain s = 1" "delay_gain s = 0"
    and sm: "samples_ok ibuf0"
  shows "ob = take (length ob) ibuf0 \<and> clips' = clips0"
proof -
  let ?len = "min (length ibuf0) osamp div nat (channels mod 2 ^ 32)"
  let ?st0 = "\<lparr>priv = s, clips = clips0, ibuf = ibuf0, obuf = []\<rparr>"
  obtain st' where l: "flow_loop ?len channels ?st0 = Inr st'"
    and e: "clips' = clips st'" "ob = obuf st'"
    using flow_InrD [OF r] by blast
  have "obuf st' = obuf ?st0 @ take (?len * nat channels) (ibuf ?st0) \<and> clips st' = clips ?st0"
    using g sm by (intro flow_loop_passthrough [OF l]) simp_all
  then have p: "ob = take (?len * nat channels) ibuf0" "clips' = clips0"
    using e by simp_all
  have "?len * nat channels \<le> length ibuf0"
    using flow_loop_InrD [OF l] by simp
  then have "length ob = ?len * nat channels"
    using p(1) by simp
  then show ?thesis
    using p by simp
qed

subsection \<open>The entry of the LFO table that a channel reads\<close>

lemma tap_config:
  assumes "delay_buf_pos g = delay_buf_pos f" and "delay_buf_length g = delay_buf_length f"
  shows "tap g = tap f"
  using assms by (intro ext) (simp add: tap_def)

lemma interpolate_config:
  assumes "delay_buf_pos g = delay_buf_pos f" and "delay_buf_length g = delay_buf_length f"
    and "interpolation g = interpolation f"
  shows "interpolate g = interpolate f"
  by (intro ext) (simp only: interpolate_def tap_config [OF assms(1,2)] assms(3))

lemma channel_reads_config:
  assumes "channel_reads f g c i"
    and "lfo f' = lfo f"
    and "delay_buf_pos g' = delay_buf_pos g" and "delay_buf_length g' = delay_buf_length g"
    and "interpolation g' = interpolation g"
    and "delay_bufs g' ! c = delay_bufs g ! c" and "delay_last g' ! c = delay_last g ! c"
  shows "channel_reads f' g' c i"
  using assms(1) unfolding channel_reads_def interpolate_config [OF assms(3,4,5)] assms(2,6,7) .

lemma flow_channel_reads:
  assumes "flow_channel c st = Inr st'"
  shows "\<exists>off. lfo_offset (priv st) c = Inr off \<and> 0 < lfo_length (priv st) \<and>
           channel_reads (priv st) (priv st') c
             (size_wrap (lfo_pos (priv st) + off) mod lfo_length (priv st))"
proof -
  let ?f = "priv st"
  obtain off i k x rest delayed where off: "lfo_offset ?f c = Inr off"
    and i: "size_mod (size_wrap (lfo_pos ?f + off)) (lfo_length ?f) = Inr i"
    and il: "i < length (lfo ?f)"
    and k: "to_size (real_of_int (trunc (lfo ?f ! i))) = Inr k"
    and x: "ibuf st = x # rest"
    and cl: "c < length (delay_last ?f)" and cb: "c < length (delay_bufs ?f)"
    and d: "interpolate ?f
              ((delay_bufs ?f ! c)[delay_buf_pos ?f :=
                 fadd (real_of_int x) (fmul (delay_last ?f ! c) (feedback_gain ?f))])
              k (lfo ?f ! i - real_of_int (trunc (lfo ?f ! i))) = Inr delayed"
    and p: "priv st' = ?f\<lparr>delay_bufs := (delay_bufs ?f)
              [c := (delay_bufs ?f ! c)[delay_buf_pos ?f :=
                 fadd (real_of_int x) (fmul (delay_last ?f ! c) (feedback_gain ?f))]],
            delay_last := (delay_last ?f)[c := delayed]\<rparr>"
    using assms
    by (cases "ibuf st")
      (auto simp: flow_channel_def Let_def and_then_Inr_iff index_def lfo_index_def
        split: if_splits)
  have l: "0 < lfo_length ?f" and ie: "i = size_wrap (lfo_pos ?f + off) mod lfo_length ?f"
    using i by (auto simp: size_mod_def split: if_splits)
  have "interpolate (priv st') = interpolate ?f"
    unfolding p by (intro interpolate_config) simp_all
  then have "channel_reads ?f (priv st') c i"
    unfolding channel_reads_def using il k d cl cb by (simp add: p)
  then show ?thesis
    using off l ie by blast
qed

lemma flow_channel_other:
  assumes "flow_channel c' st = Inr st'" and "c \<noteq> c'"
  shows "delay_bufs (priv st') ! c = delay_bufs (priv st) ! c"
    and "delay_last (priv st') ! c = delay_last (priv st) ! c"
  using flow_channel_InrD [OF assms(1)] assms(2) by auto

lemma lfo_offset_config:
  assumes "same_config f g"
  shows "lfo_offset g c = lfo_offset f c"
  using same_config_fields [OF assms] by (simp add: lfo_offset_def)

lemma flow_channels_other:
  assumes "flow_channels cs st = Inr st'" and "c \<notin> set cs"
  shows "delay_bufs (priv st') ! c = delay_bufs (priv st) ! c \<and>
         delay_last (priv st') ! c = delay_last (priv st) ! c"
  using assms
proof (induction cs arbitrary: st)
  case Nil
  then show ?case by simp
next
  case (Cons c' cs)
  from Cons.prems(1) obtain st1 where 1: "flow_channel c' st = Inr st1"
    and 2: "flow_channels cs st1 = Inr st'"
    by (auto simp: and_then_Inr_iff)
  have "c \<noteq> c'" "c \<notin> set cs"
    using Cons.prems(2) by simp_all
  then show ?case
    using Cons.IH [OF 2] flow_channel_other [OF 1] by simp
qed

lemma flow_channels_reads:
  assumes "flow_channels cs st = Inr st'" and "distinct cs" and "c \<in> set cs"
  shows "\<exists>off. lfo_offset (priv st) c = Inr off \<and> 0 < lfo_length (priv st) \<and>
           channel_reads (priv st) (priv st') c
             (size_wrap (lfo_pos (priv st) + off) mod lfo_length (priv st))"
  using assms
proof (induction cs arbitrary: st)
  case Nil
  then show ?case by simp
next
  case (Cons c' cs)
  from Cons.prems(1) obtain st1 where 1: "flow_channel c' st = Inr st1"
    and 2: "flow_channels cs st1 = Inr st'"
    by (auto simp: and_then_Inr_iff)
  note cf = flow_channel_config [OF 1]
  note f1 = same_config_fields [OF cf(1)]
  note d2 = flow_channels_InrD [OF 2]
  note f2 = same_config_fields [of "priv st1" "priv st'"]
  show ?case
  proof (cases "c = c'")
    case True
    obtain off where off: "lfo_offset (priv st) c = Inr off" and l: "0 < lfo_length (priv st)"
      and r: "channel_reads (priv st) (priv st1) c
          (size_wrap (lfo_pos (priv st) + off) mod lfo_length (priv st))"
      using flow_channel_reads [OF 1] True by blast
    have "c \<notin> set cs"
      using Cons.prems(2) True by simp
    then have o: "delay_bufs (priv st') ! c = delay_bufs (priv st1) ! c"
      "delay_last (priv st') ! c = delay_last (priv st1) ! c"
      using flow_channels_other [OF 2] by simp_all
    have "channel_reads (priv st) (priv st') c
        (size_wrap (lfo_pos (priv st) + off) mod lfo_length (priv st))"
      using r _ _ _ _ o
    proof (rule channel_reads_config)
      show "lfo (priv st) = lfo (priv st)" ..
      show "delay_buf_pos (priv st') = delay_buf_pos (priv st1)"
        using d2 by blast
      show "delay_buf_length (priv st') = delay_buf_length (priv st1)"
        using d2 f2 by blast
      show "interpolation (priv st') = interpolation (priv st1)"
        using d2 f2 by blast
    qed
    then show ?thesis
      using off l by blast
  next
    case False
    then have "c \<in> set cs" "distinct cs"
      using Cons.prems(2,3) by simp_all
    then obtain off where off: "lfo_offset (priv st1) c = Inr off"
      and l: "0 < lfo_length (priv st1)"
      and r: "channel_reads (priv st1) (priv st') c
          (size_wrap (lfo_pos (priv st1) + off) mod lfo_length (priv st1))"
      using Cons.IH [OF 2] by blast
    have "channel_reads (priv st) (priv st') c
        (size_wrap (lfo_pos (priv st1) + off) mod lfo_length (priv st1))"
      using r by (rule channel_reads_config) (simp_all add: f1)
    then show ?thesis
      using off l by (auto simp: lfo_offset_config [OF cf(1)] f1 cf(3))
  qed
qed

lemma flow_frame_reads:
  assumes "flow_frame channels st = Inr st'" and "c < nat channels"
  shows "\<exists>off. lfo_offset (priv st) c = Inr off \<and> 0 < lfo_length (priv st) \<and>
           channel_reads (priv st) (priv st') c
             (size_wrap (lfo_pos (priv st) + off) mod lfo_length (priv st))"
    and "lfo_pos (priv st') = size_wrap (lfo_pos (priv st) + 1) mod lfo_length (priv st)"
proof -
  let ?f = "priv st"
  obtain pos st1 lp where
    1: "flow_channels [0..<nat channels] (st\<lparr>priv := ?f\<lparr>delay_buf_pos := pos\<rparr>\<rparr>) = Inr st1"
    and lp: "size_mod (size_wrap (lfo_pos (priv st1) + 1)) (lfo_length (priv st1)) = Inr lp"
    and 2: "st' = st1\<lparr>priv := (priv st1)\<lparr>lfo_pos := lp\<rparr>\<rparr>"
    using assms(1) by (auto simp: flow_frame_def Let_def and_then_Inr_iff)
  let ?st0 = "st\<lparr>priv := ?f\<lparr>delay_buf_pos := pos\<rparr>\<rparr>"
  note d = flow_channels_InrD [OF 1]
  have sc: "same_config (priv ?st0) (priv st1)"
    using d by blast
  note f1 = same_config_fields [OF sc]
  have c: "c \<in> set [0..<nat channels]" "distinct [0..<nat channels]"
    using assms(2) by simp_all
  obtain off where off: "lfo_offset (priv ?st0) c = Inr off"
    and l: "0 < lfo_length (priv ?st0)"
    and r: "channel_reads (priv ?st0) (priv st1) c
        (size_wrap (lfo_pos (priv ?st0) + off) mod lfo_length (priv ?st0))"
    using flow_channels_reads [OF 1 c(2,1)] by blast
  have o: "lfo_offset ?f c = Inr off"
    using off by (simp add: lfo_offset_def)
  have "channel_reads (?f\<lparr>delay_buf_pos := pos\<rparr>) (priv st1) c
      (size_wrap (lfo_pos ?f + off) mod lfo_length ?f)"
    using r by simp
  then have "channel_reads ?f (priv st') c (size_wrap (lfo_pos ?f + off) mod lfo_length ?f)"
    by (rule channel_reads_config) (simp_all add: 2)
  then show "\<exists>off. lfo_offset ?f c = Inr off \<and> 0 < lfo_length ?f \<and>
      channel_reads ?f (priv st') c (size_wrap (lfo_pos ?f + off) mod lfo_length ?f)"
    using o l by auto
  have "lfo_pos (priv st1) = lfo_pos ?f" "lfo_length (priv st1) = lfo_length ?f"
    using d f1 by simp_all
  then show "lfo_pos (priv st') = size_wrap (lfo_pos ?f + 1) mod lfo_length ?f"
    using lp unfolding 2 by (auto simp: size_mod_def split: if_splits)
qed

lemma flow_loop_frame:
  assumes "flow_loop n channels st = Inr st'" and "j < n"
  shows "\<exists>sj sj'. flow_loop j channels st = Inr sj \<and> flow_frame channels sj = Inr sj'"
  using assms
proof (induction n arbitrary: st j)
  case 0
  then show ?case by simp
next
  case (Suc n)
  from Suc.prems(1) obtain st1 where 1: "flow_frame channels st = Inr st1"
    and 2: "flow_loop n channels st1 = Inr st'"
    by (auto simp: and_then_Inr_iff)
  show ?case
  proof (cases j)
    case 0
    then show ?thesis
      using 1 by simp
  next
    case (Suc j')
    then have "j' < n"
      using Suc.prems(2) by simp
    then obtain sj sj' where "flow_loop j' channels st1 = Inr sj" "flow_frame channels sj = Inr sj'"
      using Suc.IH [OF 2] by blast
    then show ?thesis
      using 1 Suc by (auto simp: and_then_def)
  qed
qed

lemma flow_loop_lfo_pos:
  assumes "flow_loop j channels st = Inr sj"
    and "lfo_pos (priv st) < lfo_length (priv st)" and "lfo_length (priv st) < 2 ^ 32"
  shows "lfo_pos (priv sj) = (lfo_pos (priv st) + j) mod lfo_length (priv st)"
  using assms
proof (induction j arbitrary: st)
  case 0
  then show ?case by simp
next
  case (Suc j)
  let ?L = "lfo_length (priv st)"
  from Suc.prems(1) obtain st1 where 1: "flow_frame channels st = Inr st1"
    and 2: "flow_loop j channels st1 = Inr sj"
    by (auto simp: and_then_Inr_iff)
  obtain pos s0 lp where
    a: "flow_channels [0..<nat channels] (st\<lparr>priv := (priv st)\<lparr>delay_buf_pos := pos\<rparr>\<rparr>) = Inr s0"
    and lp: "size_mod (size_wrap (lfo_pos (priv s0) + 1)) (lfo_length (priv s0)) = Inr lp"
    and b: "st1 = s0\<lparr>priv := (priv s0)\<lparr>lfo_pos := lp\<rparr>\<rparr>"
    using 1 by (auto simp: flow_frame_def Let_def and_then_Inr_iff)
  note d = flow_channels_InrD [OF a]
  have sc: "same_config (priv (st\<lparr>priv := (priv st)\<lparr>delay_buf_pos := pos\<rparr>\<rparr>)) (priv s0)"
    using d by blast
  have e: "lfo_pos (priv s0) = lfo_pos (priv st)" "lfo_length (priv s0) = ?L"
    using d same_config_fields [OF sc] by simp_all
  have "lfo_pos (priv st) + 1 < 2 ^ 32"
    using Suc.prems(2,3) by linarith
  then have p1: "lfo_pos (priv st1) = (lfo_pos (priv st) + 1) mod ?L"
    using lp unfolding b e by (auto simp: size_mod_def size_wrap_def split: if_splits)
  have l1: "lfo_length (priv st1) = ?L"
    using flow_frame_InrD [OF 1] by (simp add: same_config_fields)
  have "lfo_pos (priv st1) < lfo_length (priv st1)"
    unfolding p1 l1 using Suc.prems(2) by simp
  then have "lfo_pos (priv sj) = (lfo_pos (priv st1) + j) mod lfo_length (priv st1)"
    using Suc.IH [OF 2] Suc.prems(3) l1 by simp
  then have "lfo_pos (priv sj) = ((lfo_pos (priv st) + 1) mod ?L + j) mod ?L"
    unfolding p1 l1 .
  also have "\<dots> = (lfo_pos (priv st) + 1 + j) mod ?L"
    by (rule mod_add_left_eq)
  also have "lfo_pos (priv st) + 1 + j = lfo_pos (priv st) + Suc j"
    by simp
  finally show ?case .
qed

text \<open>The offset of a channel with a channel phase of one half.\<close>

lemma lfo_offset_half:
  assumes "channel_phase f = 1 / 2" and "lfo_length f < 2 ^ 32"
  shows "lfo_offset f 0 = Inr 0" and "lfo_offset f 1 = Inr ((lfo_length f + 1) div 2)"
proof -
  let ?L = "lfo_length f"
  have h: "fl (1 / 2) = 1 / 2"
    using fl_half_int [of 1] by simp
  show "lfo_offset f 0 = Inr 0"
    by (simp add: lfo_offset_def size_wrap_def fmul_def fadd_def h to_size_def)
  have "int ?L < 4294967296"
    using assms(2) by simp
  then have "\<bar>int ?L\<bar> < 9007199254740992" "\<bar>int ?L + 1\<bar> < 9007199254740992"
    by linarith+
  then have a: "\<bar>int ?L\<bar> < 2 ^ 53" "\<bar>int ?L + 1\<bar> < 2 ^ 53"
    by simp_all
  have 1: "fl (real ?L * (1 / 2)) = real ?L / 2"
    using fl_half_int [OF a(1)] by simp
  have 2: "fl (real ?L / 2 + 1 / 2) = real (?L + 1) / real 2"
    using fl_half_int [OF a(2)] by (simp add: field_simps)
  have 3: "\<lfloor>real (?L + 1) / real 2\<rfloor> = int ((?L + 1) div 2)"
    by (simp only: floor_divide_of_nat_eq)
  have "real (?L + 1) / real 2 < 2 ^ 32"
    using assms(2) by simp
  moreover have "- 1 < real (?L + 1) / real 2"
    by (rule less_le_trans [of _ 0]) simp_all
  ultimately show "lfo_offset f 1 = Inr ((?L + 1) div 2)"
    using assms
    by (simp only: lfo_offset_def size_wrap_def fmul_def fadd_def 1 2 3 to_size_def
        mult_1 mod_less nat_int if_True simp_thms)
qed

text \<open>The offset of a channel against the product over the real numbers.\<close>

lemma lfo_offset_near:
  assumes cp: "0 \<le> channel_phase f" "channel_phase f \<le> 1"
    and off: "lfo_offset f c = Inr off"
  shows "nat (round (real (size_wrap (c * lfo_length f)) * channel_phase f)) \<le> off + 1"
    and "off \<le> nat (round (real (size_wrap (c * lfo_length f)) * channel_phase f)) + 1"
proof -
  let ?w = "real (size_wrap (c * lfo_length f))"
  let ?x = "fmul ?w (channel_phase f)"
  let ?y = "fadd ?x (1 / 2)"
  let ?z = "?w * channel_phase f + 1 / 2"
  have "size_wrap (c * lfo_length f) \<le> 2 ^ 32"
    using size_wrap_less [of "c * lfo_length f"] by simp
  then have "?w \<le> real (2 ^ 32)"
    by (rule of_nat_mono)
  then have w: "0 \<le> ?w" "?w \<le> 2 ^ 32"
    by simp_all
  have "?w * channel_phase f \<le> ?w * 1"
    using w(1) cp(2) by (rule mult_left_mono [rotated])
  moreover have "0 \<le> ?w * channel_phase f"
    using w(1) cp(1) by simp
  ultimately have m: "\<bar>?w * channel_phase f\<bar> \<le> 2 ^ 32"
    using w(2) by simp
  then have e1: "\<bar>?x - ?w * channel_phase f\<bar> \<le> 2 ^ 32 / 2 ^ 53"
    unfolding fmul_def by (rule fl_error_pow)
  have "\<bar>?w * channel_phase f\<bar> \<le> real_of_int 4294967296"
    using m by simp
  then have "\<bar>fl (?w * channel_phase f)\<bar> \<le> real_of_int 4294967296"
    by (rule fl_abs_le_int) simp
  then have "\<bar>?x + 1 / 2\<bar> \<le> 2 ^ 33"
    by (simp add: fmul_def)
  then have e2: "\<bar>?y - (?x + 1 / 2)\<bar> \<le> 2 ^ 33 / 2 ^ 53"
    unfolding fadd_def by (rule fl_error_pow)
  have "\<bar>(?x + 1 / 2) - ?z\<bar> \<le> 2 ^ 32 / 2 ^ 53"
    using e1 by simp
  with e2 have "\<bar>?y - ?z\<bar> \<le> 1"
    by (rule abs_diff_chain) simp
  then have "\<lfloor>?z\<rfloor> - 1 \<le> \<lfloor>?y\<rfloor>" "\<lfloor>?y\<rfloor> \<le> \<lfloor>?z\<rfloor> + 1"
    by (rule floor_near)+
  then have "nat \<lfloor>?z\<rfloor> \<le> nat \<lfloor>?y\<rfloor> + 1" "nat \<lfloor>?y\<rfloor> \<le> nat \<lfloor>?z\<rfloor> + 1"
    by linarith+
  moreover have "off = nat \<lfloor>?y\<rfloor>"
    using off by (simp add: lfo_offset_def to_size_Inr_iff)
  ultimately show "nat (round (?w * channel_phase f)) \<le> off + 1"
    and "off \<le> nat (round (?w * channel_phase f)) + 1"
    unfolding round_def by simp_all
qed

subsection \<open>The shape of the buffers\<close>

lemma flow_channel_shape:
  assumes "flow_channel c st = Inr st'"
  shows "map length (delay_bufs (priv st')) = map length (delay_bufs (priv st)) \<and>
         length (delay_last (priv st')) = length (delay_last (priv st))"
proof -
  let ?f = "priv st"
  obtain v delayed where c: "c < length (delay_bufs ?f)"
    and p: "priv st' = ?f\<lparr>delay_bufs := (delay_bufs ?f)[c := (delay_bufs ?f ! c)[delay_buf_pos ?f := v]],
                            delay_last := (delay_last ?f)[c := delayed]\<rparr>"
    using flow_channel_InrD [OF assms] by auto
  have "map length ((delay_bufs ?f)[c := (delay_bufs ?f ! c)[delay_buf_pos ?f := v]]) =
      (map length (delay_bufs ?f))[c := length (delay_bufs ?f ! c)]"
    by (simp add: map_update)
  also have "\<dots> = map length (delay_bufs ?f)"
    using c by (simp add: list_update_same_conv)
  finally show ?thesis
    unfolding p by simp
qed

lemma flow_channels_shape:
  assumes "flow_channels cs st = Inr st'"
  shows "map length (delay_bufs (priv st')) = map length (delay_bufs (priv st)) \<and>
         length (delay_last (priv st')) = length (delay_last (priv st))"
  using assms
proof (induction cs arbitrary: st)
  case Nil
  then show ?case by simp
next
  case (Cons c cs)
  from Cons.prems obtain st1 where 1: "flow_channel c st = Inr st1"
    and 2: "flow_channels cs st1 = Inr st'"
    by (auto simp: and_then_Inr_iff)
  show ?case
    using Cons.IH [OF 2] flow_channel_shape [OF 1] by simp
qed

lemma flow_frame_shape:
  assumes "flow_frame channels st = Inr st'"
  shows "map length (delay_bufs (priv st')) = map length (delay_bufs (priv st)) \<and>
         length (delay_last (priv st')) = length (delay_last (priv st))"
proof -
  obtain pos st1 lp where
    1: "flow_channels [0..<nat channels] (st\<lparr>priv := (priv st)\<lparr>delay_buf_pos := pos\<rparr>\<rparr>) = Inr st1"
    and 2: "st' = st1\<lparr>priv := (priv st1)\<lparr>lfo_pos := lp\<rparr>\<rparr>"
    using assms by (auto simp: flow_frame_def Let_def and_then_Inr_iff)
  show ?thesis
    using flow_channels_shape [OF 1] by (simp add: 2)
qed

lemma flow_loop_shape:
  assumes "flow_loop len channels st = Inr st'"
  shows "map length (delay_bufs (priv st')) = map length (delay_bufs (priv st)) \<and>
         length (delay_last (priv st')) = length (delay_last (priv st))"
  using assms
proof (induction len arbitrary: st)
  case 0
  then show ?case by simp
next
  case (Suc len)
  from Suc.prems obtain st1 where 1: "flow_frame channels st = Inr st1"
    and 2: "flow_loop len channels st1 = Inr st'"
    by (auto simp: and_then_Inr_iff)
  show ?case
    using Suc.IH [OF 2] flow_frame_shape [OF 1] by simp
qed

subsection \<open>Evaluation on concrete inputs\<close>

text \<open>
  For evaluation a step is taken only once the step before it has given its value: the
  congruence rule keeps the simplifier out of the continuation.
\<close>

lemma and_then_weak_cong:
  "m = m' \<Longrightarrow> and_then m k = and_then m' k"
  by simp

lemma and_then_eval:
  "and_then (Inr x) k = k x"
  "and_then (Inl e) k = Inl e"
  by (simp_all add: and_then_def)

lemma flow_loop_unroll:
  "flow_loop len channels st =
     (if len = 0 then Inr st else and_then (flow_frame channels st) (flow_loop (len - 1) channels))"
  by (cases len) simp_all

lemmas flow_eval =
  sox_flanger_flow_def Let_def and_then_eval flow_frame_def flow_channel_def lfo_index_def
  lfo_offset_def to_size_def size_wrap_def size_mod_def index_def trunc_def interpolate_def
  tap_def SOX_ROUND_CLIP_COUNT_def SOX_SAMPLE_MIN_def SOX_SAMPLE_MAX_def flow_loop_unroll upt_rec
  fl_eval

lemma replicate_numeral:
  "replicate (numeral k) x = x # replicate (pred_numeral k) x"
  "replicate 1 x = [x]"
  by (simp_all add: numeral_eq_Suc)


subsection \<open>The claims about flow\<close>

text \<open>
  C1: the claim has flow never failing after a validated configuration. The code does
  fail: a sample rate of 5 Hz with a speed of 10 Hz (in range) passes start with an LFO
  table of length 0 (the quotient 0.5 with its fraction discarded), and the first frame
  of flow then takes an index modulo that length, a division by zero. (\<open>flow_total\<close> above
  has the other side: on well-formed private data, whose table is not empty, flow returns
  \<^verbatim>\<open>SOX_SUCCESS\<close>.)
\<close>

theorem flow_divides_by_zero:
  "params_in_range (getopts_defaults\<lparr>speed := 10\<rparr>) \<and>
   (\<exists>s. sox_flanger_start flat_wave (getopts_defaults\<lparr>speed := 10\<rparr>) 1 5 = Inr (SOX_SUCCESS, s) \<and>
        lfo_length s = 0 \<and>
        sox_flanger_flow s 1 0 [0] 1 = Inl Division_By_Zero)"
  by (simp add: params_in_range_def start_eval flow_eval)


text \<open>
  The counts of a call that returns: with a number of channels from 1 to \<^verbatim>\<open>MAX_CHANNELS\<close>
  (the counts being values of \<^verbatim>\<open>sox_size_t\<close>), the two counts stored on return both are the
  number of whole frames, \<open>min isamp osamp div channels\<close>, times the number of channels,
  and so is the number of samples written. On well-formed private data the call does
  return, with \<^verbatim>\<open>SOX_SUCCESS\<close>.
\<close>

lemma flow_whole_frames:
  assumes "0 < channels" and "channels \<le> MAX_CHANNELS"
    and "length ibuf0 < 2 ^ 32" and "osamp < 2 ^ 32"
  shows "(flanger_ok f channels \<longrightarrow>
           (\<exists>f' clips' ob n.
              sox_flanger_flow f channels clips0 ibuf0 osamp = Inr (SOX_SUCCESS, f', clips', ob, n, n))) \<and>
         (\<forall>st f' clips' ob i' o'.
            sox_flanger_flow f channels clips0 ibuf0 osamp = Inr (st, f', clips', ob, i', o') \<longrightarrow>
              st = SOX_SUCCESS \<and>
              i' = min (length ibuf0) osamp div nat channels * nat channels \<and>
              o' = i' \<and> length ob = i')"
proof (intro conjI impI allI)
  assume "flanger_ok f channels"
  then show "\<exists>f' clips' ob n.
      sox_flanger_flow f channels clips0 ibuf0 osamp = Inr (SOX_SUCCESS, f', clips', ob, n, n)"
    using flow_total [OF _ assms(1)] by blast
next
  fix st f' clips' ob i' o'
  assume r: "sox_flanger_flow f channels clips0 ibuf0 osamp = Inr (st, f', clips', ob, i', o')"
  note d = flow_InrD [OF r]
  have u: "nat (channels mod 2 ^ 32) = nat channels"
    using assms(1,2) by (rule nat_channels_unsigned)
  have w: "size_wrap (min (length ibuf0) osamp div nat channels * nat channels) =
      min (length ibuf0) osamp div nat channels * nat channels"
    using assms(3) by (intro whole_frames_no_wrap) simp
  show "st = SOX_SUCCESS"
    using d by blast
  show "i' = min (length ibuf0) osamp div nat channels * nat channels"
    using d unfolding u w by blast
  show "o' = i'"
    using d by blast
  show "length ob = i'"
    using d unfolding u w by simp
qed


text \<open>
  C5: the claim has every call process the whole frames of its input and report their
  samples. The code does not when the LFO table is empty: with 2 channels, a sample rate
  of 5 Hz and a speed of 10 Hz (in range) start succeeds, and a call with 3 input samples
  and room for 4 has one whole frame to process. It stores the counts for that frame and
  then divides by zero in it, before a sample is read or written: the frame is not
  processed. It is the defect of C1. (\<open>flow_whole_frames\<close> above has the other side.)
\<close>

theorem flow_frame_not_processed:
  "params_in_range (getopts_defaults\<lparr>speed := 10\<rparr>) \<and>
   (\<exists>s. sox_flanger_start flat_wave (getopts_defaults\<lparr>speed := 10\<rparr>) 2 5 = Inr (SOX_SUCCESS, s) \<and>
        min (length [3, 4, 5 :: int]) 4 div nat 2 = 1 \<and>
        sox_flanger_flow s 2 0 [3, 4, 5] 4 = Inl Division_By_Zero)"
  by (simp add: params_in_range_def start_eval flow_eval)


text \<open>
  C6: with a depth, a feedback and a width of 0, whatever calls of flow came before,
  every call that returns has written the input samples it has consumed, unchanged
  (\<open>ob\<close> is a prefix of the input), and has counted no clip. When moreover the table
  generator keeps to its contract, the sample rate is at least the speed and there is
  at least one channel, the call does return, having written the whole frames of its
  input.
\<close>

theorem flow_passthrough:
  assumes cfg: "params_in_range p" "delay_depth p = 0" "feedback_gain p = 0" "delay_gain p = 0"
    and st: "sox_flanger_start gen p channels rate = Inr (SOX_SUCCESS, s0)"
    and re: "flow_reachable channels s0 s"
    and sm: "samples_ok ibuf0"
  shows "(\<forall>st s' clips' ob i' o'.
            sox_flanger_flow s channels clips0 ibuf0 osamp = Inr (st, s', clips', ob, i', o') \<longrightarrow>
              ob = take (length ob) ibuf0 \<and> clips' = clips0) \<and>
         (wave_gen_ok gen \<and> length (delay_last p) = nat MAX_CHANNELS \<and> speed p \<le> rate \<and>
          0 < channels \<longrightarrow>
            (\<exists>s' ob n.
               sox_flanger_flow s channels clips0 ibuf0 osamp = Inr (SOX_SUCCESS, s', clips0, ob, n, n) \<and>
               ob = take (length ob) ibuf0 \<and>
               length ob = min (length ibuf0) osamp div nat channels * nat channels))"
proof -
  have g0: "in_gain s0 = 1" "delay_gain s0 = 0"
    using start_gains(3,4) [OF st] cfg(4) by (simp_all add: fdiv_def fadd_def fmul_def)
  have sc: "same_config s0 s"
    using re by (rule reach_same_config)
  have g: "in_gain s = 1" "delay_gain s = 0"
    using g0 same_config_fields(4,5) [OF sc] by simp_all
  have 1: "ob = take (length ob) ibuf0 \<and> clips' = clips0"
    if "sox_flanger_flow s channels clips0 ibuf0 osamp = Inr (st, s', clips', ob, i', o')"
    for st s' clips' ob i' o'
    using that g sm by (rule flow_passthrough_lemma)
  have 2: "\<exists>s' ob n.
      sox_flanger_flow s channels clips0 ibuf0 osamp = Inr (SOX_SUCCESS, s', clips0, ob, n, n) \<and>
      ob = take (length ob) ibuf0 \<and>
      length ob = min (length ibuf0) osamp div nat channels * nat channels"
    if h: "wave_gen_ok gen \<and> length (delay_last p) = nat MAX_CHANNELS \<and> speed p \<le> rate \<and>
      0 < channels"
  proof -
    have h1: "wave_gen_ok gen" and h2: "length (delay_last p) = nat MAX_CHANNELS"
      and h3: "speed p \<le> rate" and h4: "0 < channels"
      using h by simp_all
    have ok0: "flanger_ok s0 channels"
      using cfg(1) h1 st h2 h3 by (rule start_ok)
    have ok: "flanger_ok s channels"
      using re ok0 h4 by (rule reach_ok)
    obtain s' c' ob n where
      r: "sox_flanger_flow s channels clips0 ibuf0 osamp = Inr (SOX_SUCCESS, s', c', ob, n, n)"
      using flow_total [OF ok h4, of clips0 ibuf0 osamp] by blast
    have pt: "ob = take (length ob) ibuf0" "c' = clips0"
      using 1 [OF r] by simp_all
    have "channels \<le> MAX_CHANNELS"
      using ok by (simp add: flanger_ok_def)
    with h4 have u: "nat (channels mod 2 ^ 32) = nat channels"
      by (rule nat_channels_unsigned)
    have "length ob = min (length ibuf0) osamp div nat (channels mod 2 ^ 32) * nat channels"
      using flow_InrD [OF r] by (elim conjE)
    then have len: "length ob = min (length ibuf0) osamp div nat channels * nat channels"
      unfolding u .
    have "sox_flanger_flow s channels clips0 ibuf0 osamp = Inr (SOX_SUCCESS, s', clips0, ob, n, n)"
      using r pt(2) by simp
    with pt(1) len show ?thesis
      by (intro exI conjI)
  qed
  show ?thesis
  proof (intro conjI impI allI)
    fix st s' clips' ob i' o'
    assume r: "sox_flanger_flow s channels clips0 ibuf0 osamp = Inr (st, s', clips', ob, i', o')"
    show "ob = take (length ob) ibuf0"
      using 1 [OF r] by (rule conjunct1)
    show "clips' = clips0"
      using 1 [OF r] by (rule conjunct2)
  next
    assume "wave_gen_ok gen \<and> length (delay_last p) = nat MAX_CHANNELS \<and> speed p \<le> rate \<and>
      0 < channels"
    then show "\<exists>s' ob n.
      sox_flanger_flow s channels clips0 ibuf0 osamp = Inr (SOX_SUCCESS, s', clips0, ob, n, n) \<and>
      ob = take (length ob) ibuf0 \<and>
      length ob = min (length ibuf0) osamp div nat channels * nat channels"
      by (rule 2)
  qed
qed


theorem flow_passthrough_witness:
  "params_in_range (getopts_defaults\<lparr>delay_depth := 0, delay_gain := 0\<rparr>) \<and>
   delay_depth (getopts_defaults\<lparr>delay_depth := 0, delay_gain := 0\<rparr>) = 0 \<and>
   feedback_gain (getopts_defaults\<lparr>delay_depth := 0, delay_gain := 0\<rparr>) = 0 \<and>
   delay_gain (getopts_defaults\<lparr>delay_depth := 0, delay_gain := 0\<rparr>) = 0 \<and>
   samples_ok [5, - 7, 9] \<and>
   (\<exists>s s' n.
      sox_flanger_start flat_wave (getopts_defaults\<lparr>delay_depth := 0, delay_gain := 0\<rparr>) 1 2 =
        Inr (SOX_SUCCESS, s) \<and>
      flow_reachable 1 s s \<and>
      sox_flanger_flow s 1 0 [5, - 7, 9] 2 = Inr (SOX_SUCCESS, s', 0, [5, - 7], n, n))"
proof -
  let ?p = "getopts_defaults\<lparr>delay_depth := 0, delay_gain := 0\<rparr>"
  have c: "params_in_range ?p" "delay_depth ?p = 0" "feedback_gain ?p = 0" "delay_gain ?p = 0"
    by (simp_all add: params_in_range_def getopts_defaults_def fl_eval)
  have sm: "samples_ok [5, - 7, 9]"
    by (simp add: samples_ok_def SOX_SAMPLE_MIN_def SOX_SAMPLE_MAX_def)
  obtain s where s: "sox_flanger_start flat_wave ?p 1 2 = Inr (SOX_SUCCESS, s)"
    by (simp add: start_eval)
  have re: "flow_reachable 1 s s"
    by (rule reach_start)
  have h: "wave_gen_ok flat_wave \<and> length (delay_last ?p) = nat MAX_CHANNELS \<and> speed ?p \<le> 2 \<and>
    (0 :: int) < 1"
    by (simp add: flat_wave_ok getopts_defaults_def MAX_CHANNELS_def)
  obtain s' ob n where r: "sox_flanger_flow s 1 0 [5, - 7, 9] 2 = Inr (SOX_SUCCESS, s', 0, ob, n, n)"
    and o: "ob = take (length ob) [5, - 7, 9]"
    and l: "length ob = min (length [5, - 7, 9 :: int]) 2 div nat 1 * nat 1"
    using flow_passthrough [OF c s re sm, of 0 2] h by blast
  have "length ob = 2"
    using l by simp
  then have "ob = [5, - 7]"
    using o by simp
  then show ?thesis
    using c sm s re r by blast
qed

text \<open>
  C7, as the claim has it, fails. The offset of a channel is computed in doubles and
  its fraction discarded, and it is an index.

  \<^item> At 44100 Hz and a speed of 4 Hz the table has 11025 entries. With a channel phase
    of 70 percent the product of the claim is 7717.5, which rounds to 7718; the stored
    phase is the double nearest to 0.7, a little less, and channel 1 reads at 7717.
  \<^item> At 8000 Hz and a speed of 3.5 Hz the table has 2285 entries. With a channel phase
    of 30 percent the stored phase is the double nearest to 0.3, a little less, and its
    product with 2285 is a little less than 685.5, which rounds to 685; the product of
    doubles is 685.5, and channel 1 reads at 686.
  \<^item> With a channel phase of 50 percent and the 11025 entries of the first case,
    channel 1 reads 5513 entries after channel 0, and twice 5513 is not 11025.
\<close>

theorem lfo_offset_round_counterexample:
  "(params_in_range (getopts_defaults\<lparr>speed := 4, channel_phase := 70\<rparr>) \<and>
    (\<exists>s. sox_flanger_start flat_wave (getopts_defaults\<lparr>speed := 4, channel_phase := 70\<rparr>) 2 44100 =
           Inr (SOX_SUCCESS, s) \<and>
         lfo_length s = 11025 \<and> lfo_pos s = 0 \<and>
         lfo_index s 0 = Inr 0 \<and> lfo_index s 1 = Inr 7717 \<and>
         round (1 * real (lfo_length s) * (70 / 100)) = 7718)) \<and>
   (params_in_range (getopts_defaults\<lparr>speed := 7 / 2, channel_phase := 30\<rparr>) \<and>
    (\<exists>s. sox_flanger_start flat_wave (getopts_defaults\<lparr>speed := 7 / 2, channel_phase := 30\<rparr>) 2 8000 =
           Inr (SOX_SUCCESS, s) \<and>
         lfo_length s = 2285 \<and> lfo_pos s = 0 \<and>
         lfo_index s 0 = Inr 0 \<and> lfo_index s 1 = Inr 686 \<and>
         round (1 * real (lfo_length s) * channel_phase s) = 685)) \<and>
   (params_in_range (getopts_defaults\<lparr>speed := 4, channel_phase := 50\<rparr>) \<and>
    (\<exists>s. sox_flanger_start flat_wave (getopts_defaults\<lparr>speed := 4, channel_phase := 50\<rparr>) 2 44100 =
           Inr (SOX_SUCCESS, s) \<and>
         channel_phase s = 1 / 2 \<and> lfo_length s = 11025 \<and> lfo_pos s = 0 \<and>
         lfo_index s 0 = Inr 0 \<and> lfo_index s 1 = Inr 5513) \<and>
    2 * (5513 :: nat) \<noteq> 11025)"
proof (intro conjI)
  show "params_in_range (getopts_defaults\<lparr>speed := 4, channel_phase := 70\<rparr>)"
    and "params_in_range (getopts_defaults\<lparr>speed := 7 / 2, channel_phase := 30\<rparr>)"
    and "params_in_range (getopts_defaults\<lparr>speed := 4, channel_phase := 50\<rparr>)"
    by (simp_all add: params_in_range_def getopts_defaults_def fl_eval)
  show "\<exists>s. sox_flanger_start flat_wave (getopts_defaults\<lparr>speed := 4, channel_phase := 70\<rparr>) 2 44100 =
           Inr (SOX_SUCCESS, s) \<and>
         lfo_length s = 11025 \<and> lfo_pos s = 0 \<and>
         lfo_index s 0 = Inr 0 \<and> lfo_index s 1 = Inr 7717 \<and>
         round (1 * real (lfo_length s) * (70 / 100)) = 7718"
    by (simp add: start_eval lfo_index_def lfo_offset_def size_mod_def round_def)
  show "\<exists>s. sox_flanger_start flat_wave (getopts_defaults\<lparr>speed := 7 / 2, channel_phase := 30\<rparr>) 2 8000 =
           Inr (SOX_SUCCESS, s) \<and>
         lfo_length s = 2285 \<and> lfo_pos s = 0 \<and>
         lfo_index s 0 = Inr 0 \<and> lfo_index s 1 = Inr 686 \<and>
         round (1 * real (lfo_length s) * channel_phase s) = 685"
    by (simp add: start_eval lfo_index_def lfo_offset_def size_mod_def round_def)
  show "\<exists>s. sox_flanger_start flat_wave (getopts_defaults\<lparr>speed := 4, channel_phase := 50\<rparr>) 2 44100 =
           Inr (SOX_SUCCESS, s) \<and>
         channel_phase s = 1 / 2 \<and> lfo_length s = 11025 \<and> lfo_pos s = 0 \<and>
         lfo_index s 0 = Inr 0 \<and> lfo_index s 1 = Inr 5513"
    by (simp add: start_eval lfo_index_def lfo_offset_def size_mod_def)
  show "2 * (5513 :: nat) \<noteq> 11025"
    by simp
qed


text \<open>
  C7, amended: in frame \<open>j\<close> of a call of flow that returns (the LFO position being
  inside the table when the call begins), the LFO position is \<open>(lfo_pos + j) mod
  lfo_length\<close>, and channel \<open>c\<close> reads the table \<open>off\<close> entries further, modulo the table
  length, where \<open>off\<close> is the integral part of \<open>c * lfo_length * channel_phase + 0.5\<close> with
  the product \<open>c * lfo_length\<close> taken in \<^verbatim>\<open>sox_size_t\<close> and the product with the phase and
  the sum taken in doubles: the last delayed sample of the channel after the frame is the
  buffer of the channel interpolated at the delay which the table has at that index.
  With a channel phase between 0 and 1 the offset differs by at most one from the product
  over the real numbers rounded to the nearest integer.
  With a channel phase of one half (and a table of less than \<open>2 ^ 31\<close> entries) channel 0
  reads at the LFO position and channel 1 reads \<open>(lfo_length + 1) div 2\<close> entries further,
  modulo the table length: half the table length, rounded up.
\<close>

theorem flow_reads_lfo:
  assumes r: "sox_flanger_flow f channels clips0 ibuf0 osamp = Inr (st, f', clips', ob, i', o')"
    and lp: "lfo_pos f < lfo_length f" and ll: "lfo_length f < 2 ^ 32"
    and j: "j < min (length ibuf0) osamp div nat (channels mod 2 ^ 32)"
    and c: "c < nat channels"
  shows "\<exists>sj sj' off i.
           flow_loop j channels \<lparr>priv = f, clips = clips0, ibuf = ibuf0, obuf = []\<rparr> = Inr sj \<and>
           flow_frame channels sj = Inr sj' \<and>
           lfo_pos (priv sj) = (lfo_pos f + j) mod lfo_length f \<and>
           off = nat \<lfloor>fadd (fmul (real (size_wrap (c * lfo_length f))) (channel_phase f)) (1 / 2)\<rfloor> \<and>
           i = size_wrap ((lfo_pos f + j) mod lfo_length f + off) mod lfo_length f \<and>
           i < length (lfo f) \<and>
           (\<exists>k. to_size (real_of_int (trunc (lfo f ! i))) = Inr k \<and>
                interpolate (priv sj') (delay_bufs (priv sj') ! c) k
                  (lfo f ! i - real_of_int (trunc (lfo f ! i))) = Inr (delay_last (priv sj') ! c)) \<and>
           (0 \<le> channel_phase f \<and> channel_phase f \<le> 1 \<longrightarrow>
              nat (round (real (size_wrap (c * lfo_length f)) * channel_phase f)) \<le> off + 1 \<and>
              off \<le> nat (round (real (size_wrap (c * lfo_length f)) * channel_phase f)) + 1) \<and>
           (channel_phase f = 1 / 2 \<and> lfo_length f < 2 ^ 31 \<longrightarrow>
              (c = 0 \<longrightarrow> i = (lfo_pos f + j) mod lfo_length f) \<and>
              (c = 1 \<longrightarrow>
                 i = ((lfo_pos f + j) mod lfo_length f + (lfo_length f + 1) div 2) mod lfo_length f))"
proof -
  let ?st0 = "\<lparr>priv = f, clips = clips0, ibuf = ibuf0, obuf = []\<rparr>"
  let ?L = "lfo_length f"
  let ?p = "(lfo_pos f + j) mod ?L"
  obtain st' where l: "flow_loop (min (length ibuf0) osamp div nat (channels mod 2 ^ 32)) channels
      ?st0 = Inr st'"
    using flow_InrD [OF r] by blast
  obtain sj sj' where sj: "flow_loop j channels ?st0 = Inr sj"
    and fr: "flow_frame channels sj = Inr sj'"
    using flow_loop_frame [OF l j] by blast
  have pj: "lfo_pos (priv sj) = ?p"
    using flow_loop_lfo_pos [OF sj] lp ll by simp
  have sc: "same_config f (priv sj)"
    using flow_loop_InrD [OF sj] by simp
  note e = same_config_fields [OF sc]
  obtain off where off: "lfo_offset (priv sj) c = Inr off"
    and rd: "channel_reads (priv sj) (priv sj') c
        (size_wrap (lfo_pos (priv sj) + off) mod lfo_length (priv sj))"
    using flow_frame_reads(1) [OF fr c] by blast
  have off_f: "lfo_offset f c = Inr off"
    using off lfo_offset_config [OF sc] by simp
  then have off_eq:
    "off = nat \<lfloor>fadd (fmul (real (size_wrap (c * ?L))) (channel_phase f)) (1 / 2)\<rfloor>"
    by (simp add: lfo_offset_def to_size_Inr_iff)
  define i where "i = size_wrap (?p + off) mod ?L"
  have rd': "channel_reads (priv sj) (priv sj') c i"
    using rd unfolding pj e i_def .
  have il: "i < length (lfo f)"
    using rd' by (simp add: channel_reads_def e)
  have ip: "\<exists>k. to_size (real_of_int (trunc (lfo f ! i))) = Inr k \<and>
      interpolate (priv sj') (delay_bufs (priv sj') ! c) k
        (lfo f ! i - real_of_int (trunc (lfo f ! i))) = Inr (delay_last (priv sj') ! c)"
    using rd' by (simp add: channel_reads_def e)
  have half: "(c = 0 \<longrightarrow> i = ?p) \<and> (c = 1 \<longrightarrow> i = (?p + (?L + 1) div 2) mod ?L)"
    if h: "channel_phase f = 1 / 2 \<and> ?L < 2 ^ 31"
  proof (intro conjI impI)
    have p: "?p < ?L"
      using lp by simp
    have L: "?L < 2147483648"
      using h by simp
    assume "c = 0"
    then have "off = 0"
      using off_f lfo_offset_half(1) [of f] h ll by simp
    moreover have "?p < 4294967296"
      using p L by linarith
    ultimately show "i = ?p"
      using p by (simp add: i_def size_wrap_def)
  next
    have p: "?p < ?L"
      using lp by simp
    have L: "?L < 2147483648"
      using h by simp
    assume "c = 1"
    then have o: "off = (?L + 1) div 2"
      using off_f lfo_offset_half(2) [of f] h ll by simp
    have "?p + (?L + 1) div 2 < 4294967296"
      using p L by linarith
    then show "i = (?p + (?L + 1) div 2) mod ?L"
      by (simp add: i_def o size_wrap_def)
  qed
  have near: "nat (round (real (size_wrap (c * ?L)) * channel_phase f)) \<le> off + 1 \<and>
      off \<le> nat (round (real (size_wrap (c * ?L)) * channel_phase f)) + 1"
    if "0 \<le> channel_phase f \<and> channel_phase f \<le> 1"
    using lfo_offset_near [OF _ _ off_f] that by blast
  show ?thesis
    using sj fr pj off_eq i_def il ip near half by blast
qed

theorem flow_reads_lfo_witness:
  "\<exists>s f' sj sj'.
     sox_flanger_start flat_wave (getopts_defaults\<lparr>speed := 1, channel_phase := 50\<rparr>) 2 3 =
       Inr (SOX_SUCCESS, s) \<and>
     sox_flanger_flow s 2 0 [5, - 7, 9, 2] 4 = Inr (SOX_SUCCESS, f', 0, [5, - 7, 9, 2], 4, 4) \<and>
     lfo_pos s = 0 \<and> lfo_length s = 3 \<and> channel_phase s = 1 / 2 \<and>
     (1 :: nat) < min (length [5, - 7, 9, 2 :: int]) 4 div nat (2 mod 2 ^ 32) \<and> (1 :: nat) < nat 2 \<and>
     flow_loop 1 2 \<lparr>priv = s, clips = 0, ibuf = [5, - 7, 9, 2], obuf = []\<rparr> = Inr sj \<and>
     flow_frame 2 sj = Inr sj' \<and>
     lfo_pos (priv sj) = 1 \<and>
     nat \<lfloor>fadd (fmul (real (size_wrap (1 * lfo_length s))) (channel_phase s)) (1 / 2)\<rfloor> = 2 \<and>
     (0 :: nat) < length (lfo s) \<and>
     (\<exists>k. to_size (real_of_int (trunc (lfo s ! 0))) = Inr k \<and>
          interpolate (priv sj') (delay_bufs (priv sj') ! 1) k
            (lfo s ! 0 - real_of_int (trunc (lfo s ! 0))) = Inr (delay_last (priv sj') ! 1))"
proof -
  obtain s where s: "sox_flanger_start flat_wave (getopts_defaults\<lparr>speed := 1, channel_phase := 50\<rparr>) 2 3 =
       Inr (SOX_SUCCESS, s)"
    and v: "s = \<lparr>delay_min = 0, delay_depth = 2, feedback_gain = 0,
         delay_gain = 7479662539024683 / 18014398509481984,
         speed = 1, wave_shape = SOX_WAVE_SINE, channel_phase = 1 / 2,
         interpolation = INTERP_LINEAR, delay_bufs = [[0, 0], [0, 0]],
         delay_buf_length = 2, delay_buf_pos = 0, delay_last = [0, 0, 0, 0],
         lfo = [0, 0, 0], lfo_length = 3, lfo_pos = 0,
         in_gain = 2633683992614325 / 4503599627370496\<rparr>"
    by (simp add: start_eval replicate_numeral)
  obtain f' where r: "sox_flanger_flow s 2 0 [5, - 7, 9, 2] 4 =
      Inr (SOX_SUCCESS, f', 0, [5, - 7, 9, 2], 4, 4)"
    unfolding v by (simp add: flow_eval cong: and_then_weak_cong)
  have h: "lfo_pos s < lfo_length s" "lfo_length s < 2 ^ 32"
    "(1 :: nat) < min (length [5, - 7, 9, 2 :: int]) 4 div nat (2 mod 2 ^ 32)" "(1 :: nat) < nat 2"
    by (simp_all add: v)
  have w: "lfo_pos s = 0" "lfo_length s = 3" "channel_phase s = 1 / 2"
    by (simp_all add: v)
  obtain sj sj' off i where
    sj: "flow_loop 1 2 \<lparr>priv = s, clips = 0, ibuf = [5, - 7, 9, 2], obuf = []\<rparr> = Inr sj"
    and fr: "flow_frame 2 sj = Inr sj'"
    and pj: "lfo_pos (priv sj) = (lfo_pos s + 1) mod lfo_length s"
    and off: "off = nat \<lfloor>fadd (fmul (real (size_wrap (1 * lfo_length s))) (channel_phase s)) (1 / 2)\<rfloor>"
    and i: "i = size_wrap ((lfo_pos s + 1) mod lfo_length s + off) mod lfo_length s"
    and il: "i < length (lfo s)"
    and ip: "\<exists>k. to_size (real_of_int (trunc (lfo s ! i))) = Inr k \<and>
          interpolate (priv sj') (delay_bufs (priv sj') ! 1) k
            (lfo s ! i - real_of_int (trunc (lfo s ! i))) = Inr (delay_last (priv sj') ! 1)"
    using flow_reads_lfo [OF r h] by blast
  have off2: "nat \<lfloor>fadd (fmul (real (size_wrap (1 * lfo_length s))) (channel_phase s)) (1 / 2)\<rfloor> = 2"
    by (simp add: w size_wrap_def fl_eval)
  have i0: "i = 0"
    unfolding i off off2 by (simp add: w size_wrap_def)
  have "lfo_pos (priv sj) = 1"
    using pj by (simp add: w)
  then show ?thesis
    using s r w h(3,4) sj fr off2 il ip unfolding i0 by blast
qed


text \<open>
  C10: a call of flow that returns leaves every field of the configuration as it was:
  the delays, the gains, the speed, the wave shape, the channel phase, the
  interpolation, the two lengths and the LFO table; the buffers and the array of the last
  delayed samples keep their lengths.
\<close>

theorem flow_keeps_configuration:
  assumes "sox_flanger_flow f channels clips0 ibuf0 osamp = Inr (st, f', clips', ob, i', o')"
  shows "delay_min f' = delay_min f \<and> delay_depth f' = delay_depth f \<and>
         feedback_gain f' = feedback_gain f \<and> delay_gain f' = delay_gain f \<and>
         in_gain f' = in_gain f \<and> speed f' = speed f \<and> wave_shape f' = wave_shape f \<and>
         channel_phase f' = channel_phase f \<and> interpolation f' = interpolation f \<and>
         delay_buf_length f' = delay_buf_length f \<and> lfo_length f' = lfo_length f \<and>
         lfo f' = lfo f \<and>
         map length (delay_bufs f') = map length (delay_bufs f) \<and>
         length (delay_last f') = length (delay_last f)"
proof -
  note d = flow_InrD [OF assms]
  have "same_config f f'"
    using d by blast
  moreover obtain st' where "flow_loop (min (length ibuf0) osamp div nat (channels mod 2 ^ 32))
      channels \<lparr>priv = f, clips = clips0, ibuf = ibuf0, obuf = []\<rparr> = Inr st'" "f' = priv st'"
    using d by blast
  then have "map length (delay_bufs f') = map length (delay_bufs f) \<and>
      length (delay_last f') = length (delay_last f)"
    using flow_loop_shape by fastforce
  ultimately show ?thesis
    by (simp add: same_config_fields)
qed

theorem flow_keeps_configuration_witness:
  "\<exists>s f'. sox_flanger_start flat_wave (getopts_defaults\<lparr>feedback_gain := 10, delay_gain := 30\<rparr>) 1 2 =
       Inr (SOX_SUCCESS, s) \<and>
     sox_flanger_flow s 1 0 [65, - 7, 9] 3 = Inr (SOX_SUCCESS, f', 0, [63, - 5, 9], 3, 3) \<and>
     delay_min f' = delay_min s \<and> delay_depth f' = delay_depth s \<and>
     feedback_gain f' = feedback_gain s \<and> delay_gain f' = delay_gain s \<and>
     in_gain f' = in_gain s \<and> speed f' = speed s \<and> wave_shape f' = wave_shape s \<and>
     channel_phase f' = channel_phase s \<and> interpolation f' = interpolation s \<and>
     delay_buf_length f' = delay_buf_length s \<and> lfo_length f' = lfo_length s \<and>
     lfo f' = lfo s \<and>
     map length (delay_bufs f') = map length (delay_bufs s) \<and>
     length (delay_last f') = length (delay_last s) \<and>
     lfo_pos f' \<noteq> lfo_pos s \<and> delay_last f' \<noteq> delay_last s \<and> delay_bufs f' \<noteq> delay_bufs s"
proof -
  obtain s where s: "sox_flanger_start flat_wave
      (getopts_defaults\<lparr>feedback_gain := 10, delay_gain := 30\<rparr>) 1 2 = Inr (SOX_SUCCESS, s)"
    and v: "s = \<lparr>delay_min = 0, delay_depth = 2,
         feedback_gain = 3602879701896397 / 36028797018963968,
         delay_gain = 3741451998123181 / 18014398509481984,
         speed = 1 / 2, wave_shape = SOX_WAVE_SINE, channel_phase = 1 / 4,
         interpolation = INTERP_LINEAR, delay_bufs = [[0, 0]],
         delay_buf_length = 2, delay_buf_pos = 0, delay_last = [0, 0, 0, 0],
         lfo = [0, 0, 0, 0], lfo_length = 4, lfo_pos = 0,
         in_gain = 866076851417403 / 1125899906842624\<rparr>"
    by (simp add: start_eval replicate_numeral)
  obtain f' where r: "sox_flanger_flow s 1 0 [65, - 7, 9] 3 =
      Inr (SOX_SUCCESS, f', 0, [63, - 5, 9], 3, 3)"
    and w: "lfo_pos f' = 3" "delay_last f' ! 0 \<noteq> 0" "delay_bufs f' \<noteq> [[0, 0]]"
    unfolding v by (simp add: flow_eval cong: and_then_weak_cong)
  have "delay_last f' \<noteq> [0, 0, 0, 0]"
    using w(2) by auto
  then show ?thesis
    using s r flow_keeps_configuration [OF r] w by (auto simp: v)
qed

end
